theory Spec2Isabelle
  imports Main "HOL-Library.Sublist"
begin

section \<open>Python strings\<close>

text \<open>
  A Python \<open>str\<close> is a sequence of Unicode code points, and the normalizer rewrites two
  characters outside ASCII (the en dash U+2013 and the curly apostrophe U+2019), so a
  string is modelled as a list of code points. \<open>ustr\<close> embeds an ASCII literal.
\<close>

type_synonym ustring = "nat list"

definition ustr :: "string \<Rightarrow> ustring" where
  "ustr s = map of_char s"

abbreviation LF :: nat where "LF \<equiv> 10"
abbreviation CR :: nat where "CR \<equiv> 13"
abbreviation SPACE :: nat where "SPACE \<equiv> 32"
abbreviation DOLLAR :: nat where "DOLLAR \<equiv> 36"
abbreviation APOSTROPHE :: nat where "APOSTROPHE \<equiv> 39"
abbreviation COMMA :: nat where "COMMA \<equiv> 44"
abbreviation HYPHEN :: nat where "HYPHEN \<equiv> 45"
abbreviation FULL_STOP :: nat where "FULL_STOP \<equiv> 46"
abbreviation EN_DASH :: nat where "EN_DASH \<equiv> 8211"
abbreviation CURLY_APOSTROPHE :: nat where "CURLY_APOSTROPHE \<equiv> 8217"

text \<open>
  The character classes of the interpreter. \<open>str.strip()\<close>, \<open>str.isspace()\<close> and the
  regular-expression class \<open>\s\<close> share one table of whitespace; \<open>str.splitlines()\<close>
  breaks at the line boundaries, all of which are whitespace; \<open>\d\<close> on a \<open>str\<close>
  pattern is the Unicode category Nd, which comes in blocks of ten consecutive code
  points (the table is that of Unicode 14.0, listed by the code point of each zero).
\<close>

definition py_isspace :: "nat \<Rightarrow> bool" where
  "py_isspace c \<longleftrightarrow>
     (9 \<le> c \<and> c \<le> 13) \<or> (28 \<le> c \<and> c \<le> 32) \<or> c = 133 \<or> c = 160 \<or> c = 5760 \<or>
     (8192 \<le> c \<and> c \<le> 8202) \<or> c = 8232 \<or> c = 8233 \<or> c = 8239 \<or> c = 8287 \<or>
     c = 12288"

definition py_islinebreak :: "nat \<Rightarrow> bool" where
  "py_islinebreak c \<longleftrightarrow>
     (10 \<le> c \<and> c \<le> 13) \<or> (28 \<le> c \<and> c \<le> 30) \<or> c = 133 \<or> c = 8232 \<or> c = 8233"

definition decimal_zeros :: "nat list" where
  "decimal_zeros =
     [48, 1632, 1776, 1984, 2406, 2534, 2662, 2790, 2918, 3046, 3174, 3302, 3430, 3558,
      3664, 3792, 3872, 4160, 4240, 6112, 6160, 6470, 6608, 6784, 6800, 6992, 7088, 7232,
      7248, 42528, 43216, 43264, 43472, 43504, 43600, 44016, 65296, 66720, 68912, 69734,
      69872, 69942, 70096, 70384, 70736, 70864, 71248, 71360, 71472, 71904, 72016, 72784,
      73040, 73120, 92768, 92864, 93008, 120782, 120792, 120802, 120812, 120822, 123200,
      123632, 125264, 130032]"

definition py_isdecimal :: "nat \<Rightarrow> bool" where
  "py_isdecimal c \<longleftrightarrow> list_ex (\<lambda>z. z \<le> c \<and> c < z + 10) decimal_zeros"

text \<open>\<open>s.strip()\<close>: whitespace is removed from both ends.\<close>

definition strip :: "ustring \<Rightarrow> ustring" where
  "strip s = rev (dropWhile py_isspace (rev (dropWhile py_isspace s)))"

text \<open>
  \<open>s.splitlines()\<close>: one scan from the left, collecting the current line in \<open>cur\<close>
  (reversed). A carriage return directly followed by a line feed is one boundary; a
  boundary at the very end opens no further line.
\<close>

fun splitlines_from :: "ustring \<Rightarrow> ustring \<Rightarrow> ustring list" where
  "splitlines_from cur [] = (if cur = [] then [] else [rev cur])"
| "splitlines_from cur (c # cs) =
     (if c = CR then
        (case cs of
           [] \<Rightarrow> [rev cur]
         | d # ds \<Rightarrow> if d = LF then rev cur # splitlines_from [] ds
                    else rev cur # splitlines_from [] (d # ds))
      else if py_islinebreak c then rev cur # splitlines_from [] cs
      else splitlines_from (c # cur) cs)"

definition splitlines :: "ustring \<Rightarrow> ustring list" where
  "splitlines s = splitlines_from [] s"

text \<open>\<open>sep.join(xs)\<close>.\<close>

fun join :: "ustring \<Rightarrow> ustring list \<Rightarrow> ustring" where
  "join sep [] = []"
| "join sep [x] = x"
| "join sep (x # y # ys) = x @ sep @ join sep (y # ys)"

text \<open>
  \<open>s.startswith(p)\<close> is \<^const>\<open>prefix\<close> \<open>p s\<close>. \<open>s.replace(old, new)\<close> replaces the
  occurrences of \<open>old\<close> found by one scan from the left, resuming after each replaced
  occurrence (the source only replaces non-empty patterns).
\<close>

fun py_replace :: "ustring \<Rightarrow> ustring \<Rightarrow> ustring \<Rightarrow> ustring" where
  "py_replace old new [] = []"
| "py_replace old new (c # cs) =
     (if old \<noteq> [] \<and> prefix old (c # cs)
      then new @ py_replace old new (drop (length old) (c # cs))
      else c # py_replace old new cs)"

text \<open>
  \<open>sep in s\<close> together with \<open>s.split(sep, 1)\<close>: the text before and the text after the
  first occurrence of \<open>sep\<close>, or \<open>None\<close> when \<open>sep\<close> does not occur.
\<close>

fun split_once :: "ustring \<Rightarrow> ustring \<Rightarrow> (ustring \<times> ustring) option" where
  "split_once sep [] = (if sep = [] then Some ([], []) else None)"
| "split_once sep (c # cs) =
     (if prefix sep (c # cs) then Some ([], drop (length sep) (c # cs))
      else map_option (\<lambda>(h, t). (c # h, t)) (split_once sep cs))"

text \<open>
  \<open>xs[:n]\<close>: a negative bound counts from the end of the list.
\<close>

definition slice_upto :: "int \<Rightarrow> 'a list \<Rightarrow> 'a list" where
  "slice_upto n xs = (if 0 \<le> n then take (nat n) xs else take (length xs - nat (- n)) xs)"

text \<open>
  A line as the normalizer keeps it: not empty, no whitespace at either end, no line
  boundary inside.
\<close>

definition clean :: "ustring \<Rightarrow> bool" where
  "clean l \<longleftrightarrow> l \<noteq> [] \<and> \<not> py_isspace (hd l) \<and> \<not> py_isspace (last l) \<and> (\<forall>c\<in>set l. \<not> py_islinebreak c)"

section \<open>The output normalizer (agents/langchain_gemini_agent.py)\<close>

text \<open>
  \<open>PRICE_RE = re.compile(r"^\$\d[\d,]*\.?\d*$")\<close>, used with \<open>match\<close>. After the dollar
  sign and the first digit, \<open>[\d,]*\<close> takes digits and commas, \<open>\.?\<close> an optional full
  stop and \<open>\d*\<close> digits; \<open>$\<close> holds at the end of the string or before a final line
  feed. Taking the longest run at each star decides the match: a shorter run leaves a
  digit or comma that only the same characters could consume.
\<close>

definition PRICE_RE_match :: "ustring \<Rightarrow> bool" where
  "PRICE_RE_match l =
     (case l of
        d0 # d1 # rest \<Rightarrow>
          d0 = DOLLAR \<and> py_isdecimal d1 \<and>
          (let r1 = dropWhile (\<lambda>c. py_isdecimal c \<or> c = COMMA) rest;
               r2 = (case r1 of [] \<Rightarrow> [] | c # r \<Rightarrow> if c = FULL_STOP then r else r1);
               r3 = dropWhile py_isdecimal r2
           in r3 = [] \<or> r3 = [LF])
      | _ \<Rightarrow> False)"

text \<open>
  \<open>lines = [l.strip() for l in (out_str or "").strip().splitlines() if l.strip()]\<close>.
  The argument is a \<open>str\<close>, as annotated, for which \<open>out_str or ""\<close> is \<open>out_str\<close>.
\<close>

definition lines_of :: "ustring \<Rightarrow> ustring list" where
  "lines_of out_str = map strip (filter (\<lambda>l. strip l \<noteq> []) (splitlines (strip out_str)))"

text \<open>
  \<open>price = next((l for l in lines if PRICE_RE.match(l)), lines[0])\<close>, for the non-empty
  list \<open>l0 # ls\<close>.
\<close>

definition select_price :: "ustring \<Rightarrow> ustring list \<Rightarrow> ustring" where
  "select_price l0 ls = (case find PRICE_RE_match (l0 # ls) of Some l \<Rightarrow> l | None \<Rightarrow> l0)"

text \<open>The rewriting of one bullet line \<open>l\<close> that starts with \<open>"- "\<close>.\<close>

definition rewrite_bullet :: "ustring \<Rightarrow> ustring" where
  "rewrite_bullet l =
     (let b = strip (drop 2 l);
          b = py_replace (ustr '' - '') [SPACE, EN_DASH, SPACE] b;
          b = py_replace [CURLY_APOSTROPHE] [APOSTROPHE] b
      in b)"

text \<open>The loop that appends the rewritten bullets to \<open>bullets\<close>.\<close>

fun collect_bullets :: "ustring list \<Rightarrow> ustring list \<Rightarrow> ustring list" where
  "collect_bullets bullets [] = bullets"
| "collect_bullets bullets (l # ls) =
     (if prefix (ustr ''- '') l then collect_bullets (bullets @ [rewrite_bullet l]) ls
      else collect_bullets bullets ls)"

definition sentinel :: ustring where
  "sentinel = ustr ''No recent headlines found.''"

text \<open>Steps 3 and 4: the sentinel, the clamp and the lines of the result.\<close>

definition clamp_bullets :: "int \<Rightarrow> ustring list \<Rightarrow> ustring list" where
  "clamp_bullets max_bullets bullets =
     slice_upto max_bullets (if bullets = [] then [sentinel] else bullets)"

definition final_lines :: "ustring list \<Rightarrow> int \<Rightarrow> ustring list" where
  "final_lines ls max_bullets =
     (case ls of
        [] \<Rightarrow> []
      | l0 # rest \<Rightarrow>
          select_price l0 rest #
          map (\<lambda>b. ustr ''- '' @ b) (clamp_bullets max_bullets (collect_bullets [] ls)))"

definition format_guard :: "ustring \<Rightarrow> int \<Rightarrow> ustring" where
  "format_guard out_str max_bullets =
     (let ls = lines_of out_str
      in if ls = [] then out_str else join [LF] (final_lines ls max_bullets))"

section \<open>The structured projection (agents/langchain_gemini_agent.py)\<close>

text \<open>
  \<open>to_json\<close> builds a dictionary and serialises it with \<open>json.dumps\<close>; the model is the
  dictionary, a price and the list of headlines in order.
\<close>

record headline =
  title :: ustring
  host :: ustring

record projection =
  price :: ustring
  headlines :: "headline list"

definition separator :: ustring where
  "separator = [SPACE, EN_DASH, SPACE]"

definition split_headline :: "ustring \<Rightarrow> headline" where
  "split_headline l =
     (let txt = strip (drop 2 l)
      in case split_once separator txt of
           Some (t, h) \<Rightarrow> \<lparr>title = strip t, host = strip h\<rparr>
         | None \<Rightarrow> \<lparr>title = strip txt, host = strip []\<rparr>)"

fun collect_headlines :: "headline list \<Rightarrow> ustring list \<Rightarrow> headline list" where
  "collect_headlines hs [] = hs"
| "collect_headlines hs (l # ls) =
     (if prefix (ustr ''- '') l then collect_headlines (hs @ [split_headline l]) ls
      else collect_headlines hs ls)"

definition to_json :: "ustring \<Rightarrow> projection" where
  "to_json out_str =
     (let ls = lines_of out_str
      in \<lparr>price = (case ls of [] \<Rightarrow> [] | l0 # _ \<Rightarrow> l0),
          headlines = collect_headlines [] (drop 1 ls)\<rparr>)"

text \<open>
  The re-flattening is not in the code. It follows the words of the specification: the
  price line first, then one dash-prefixed line per headline. Title and host are joined
  with the en-dash separator; a headline whose host is empty, which is what the
  projection gives a line without separator, is re-flattened to its title alone.
\<close>

definition spec_reflatten :: "projection \<Rightarrow> ustring list" where
  "spec_reflatten p =
     price p #
     map (\<lambda>h. ustr ''- '' @ title h @ (if host h = [] then [] else separator @ host h))
       (headlines p)"

section \<open>The launcher's variant (demo.py)\<close>

definition no_output :: ustring where
  "no_output = [LF, LF] @ ustr ''(No output)'' @ [LF]"

definition format_final_block :: "ustring \<Rightarrow> int \<Rightarrow> ustring" where
  "format_final_block block max_bullets =
     (let ls = lines_of block
      in if ls = [] then no_output
         else [LF] @ join [LF] (final_lines ls max_bullets) @ [LF])"

definition marker :: ustring where
  "marker = ustr ''----Final Result----''"

definition demo_format_guard :: "ustring \<Rightarrow> int \<Rightarrow> ustring" where
  "demo_format_guard out_str max_bullets =
     (if strip out_str = [] then out_str
      else case split_once marker out_str of
             Some (head, tail) \<Rightarrow> head @ marker @ format_final_block tail max_bullets
           | None \<Rightarrow> format_final_block out_str max_bullets)"

section \<open>The failure recovery layer (agents/agent.py)\<close>

datatype py_error = IndexError

text \<open>
  \<open>FINAL_RE = re.compile(r"Final Answer:\s*(.+)", flags=re.S)\<close>, used with \<open>search\<close>.
  \<open>ws_then_any\<close> is \<open>\s*(.+)\<close> at one position: the star takes whitespace while the
  rest still matches and gives a character back when it does not; with \<open>re.S\<close> the dot
  takes any character, so the group is the whole non-empty rest. \<open>FINAL_RE_search\<close> tries
  the start positions from the left and returns group 1 of the first match.
\<close>

definition final_marker :: ustring where
  "final_marker = ustr ''Final Answer:''"

fun ws_then_any :: "ustring \<Rightarrow> ustring option" where
  "ws_then_any [] = None"
| "ws_then_any (c # cs) =
     (if py_isspace c
      then (case ws_then_any cs of Some g \<Rightarrow> Some g | None \<Rightarrow> Some (c # cs))
      else Some (c # cs))"

definition FINAL_RE_at :: "ustring \<Rightarrow> ustring option" where
  "FINAL_RE_at s =
     (if prefix final_marker s then ws_then_any (drop (length final_marker) s) else None)"

fun FINAL_RE_search :: "ustring \<Rightarrow> ustring option" where
  "FINAL_RE_search [] = FINAL_RE_at []"
| "FINAL_RE_search (c # cs) =
     (case FINAL_RE_at (c # cs) of Some g \<Rightarrow> Some g | None \<Rightarrow> FINAL_RE_search cs)"

text \<open>
  \<open>try_extract_final\<close>: \<open>ans.splitlines()[0]\<close> raises \<open>IndexError\<close> when \<open>ans\<close> is empty.
\<close>

definition try_extract_final :: "ustring \<Rightarrow> py_error + ustring option" where
  "try_extract_final text =
     (case FINAL_RE_search text of
        Some g \<Rightarrow>
          (let ans = strip g
           in case splitlines ans of
                [] \<Rightarrow> Inl IndexError
              | l # _ \<Rightarrow> Inr (Some (strip l)))
      | None \<Rightarrow> Inr None)"

text \<open>
  The main block. A call of \<open>agent_executor.invoke\<close> returns a dictionary (of which only
  the entry \<open>"output"\<close> is read), raises \<open>ResourceExhausted\<close>, or raises another exception
  with the text \<open>str(e)\<close>. The environment \<open>env\<close> gives the result of the \<open>k\<close>-th call; the
  state counts the calls and records what is printed and slept.
\<close>

datatype invoke_result =
    Returned "ustring option"
  | ResourceExhausted
  | OtherException ustring

datatype outcome =
    Completed
  | SysExit nat
  | Uncaught_ResourceExhausted
  | Uncaught_Exception ustring
  | Uncaught_IndexError

record run_state =
  calls :: nat
  stdout :: "ustring list"
  stderr :: "ustring list"
  slept :: nat

definition initial :: run_state where
  "initial = \<lparr>calls = 0, stdout = [], stderr = [], slept = 0\<rparr>"

definition invoke :: "(nat \<Rightarrow> invoke_result) \<Rightarrow> run_state \<Rightarrow> invoke_result \<times> run_state" where
  "invoke env st = (env (calls st), st\<lparr>calls := Suc (calls st)\<rparr>)"

definition print_output :: "ustring option \<Rightarrow> run_state \<Rightarrow> run_state" where
  "print_output out st =
     st\<lparr>stdout := stdout st @ [strip (case out of None \<Rightarrow> [] | Some v \<Rightarrow> v)]\<rparr>"

definition rate_limit_notice :: ustring where
  "rate_limit_notice = ustr ''[rate-limit] Gemini quota hit; waiting 35s and retrying once...''"

definition parse_hint :: ustring where
  "parse_hint =
     ustr ''Error: could not parse a final answer.'' @ [LF] @
     ustr ''Hint: model emitted both an Action and Final Answer in the same step.''"

definition main_block :: "(nat \<Rightarrow> invoke_result) \<Rightarrow> outcome \<times> run_state" where
  "main_block env =
     (case invoke env initial of
        (Returned out, st) \<Rightarrow> (Completed, print_output out st)
      | (ResourceExhausted, st) \<Rightarrow>
          (let st = st\<lparr>stderr := stderr st @ [rate_limit_notice]\<rparr>;
               st = st\<lparr>slept := slept st + 35\<rparr>
           in case invoke env st of
                (Returned out, st) \<Rightarrow> (Completed, print_output out st)
              | (ResourceExhausted, st) \<Rightarrow> (Uncaught_ResourceExhausted, st)
              | (OtherException e, st) \<Rightarrow> (Uncaught_Exception e, st))
      | (OtherException e, st) \<Rightarrow>
          (case try_extract_final e of
             Inl IndexError \<Rightarrow> (Uncaught_IndexError, st)
           | Inr salvaged \<Rightarrow>
               (case salvaged of
                  Some s \<Rightarrow>
                    if s \<noteq> [] then (Completed, st\<lparr>stdout := stdout st @ [s]\<rparr>)
                    else (SysExit 1, st\<lparr>stderr := stderr st @ [parse_hint, e]\<rparr>)
                | None \<Rightarrow> (SysExit 1, st\<lparr>stderr := stderr st @ [parse_hint, e]\<rparr>))))"

section \<open>Stripping, splitting and joining\<close>

lemma linebreak_isspace: "py_islinebreak c \<Longrightarrow> py_isspace c"
  by (auto simp: py_islinebreak_def py_isspace_def)

lemma strip_Nil [simp]: "strip [] = []"
  by (simp add: strip_def)

lemma all_dropWhile: "(\<forall>x\<in>set (dropWhile P s). P x) \<longleftrightarrow> (\<forall>x\<in>set s. P x)"
  by (induction s) auto

lemma strip_eq_Nil_iff: "strip s = [] \<longleftrightarrow> (\<forall>c\<in>set s. py_isspace c)"
  by (simp add: strip_def all_dropWhile)

lemma set_strip: "set (strip s) \<subseteq> set s"
proof
  fix x assume "x \<in> set (strip s)"
  then have "x \<in> set (dropWhile py_isspace (rev (dropWhile py_isspace s)))"
    by (simp add: strip_def)
  then have "x \<in> set (rev (dropWhile py_isspace s))" by (rule set_dropWhileD)
  then have "x \<in> set (dropWhile py_isspace s)" by simp
  then show "x \<in> set s" by (rule set_dropWhileD)
qed

lemma hd_strip: "strip s \<noteq> [] \<Longrightarrow> \<not> py_isspace (hd (strip s))"
proof -
  assume ne: "strip s \<noteq> []"
  let ?d = "dropWhile py_isspace s"
  have dne: "?d \<noteq> []" using ne by (auto simp: strip_def simp del: dropWhile_eq_Nil_conv)
  then have hd_d: "\<not> py_isspace (hd ?d)" by (rule hd_dropWhile)
  have "rev ?d \<noteq> []" using dne by simp
  have "last ?d = hd (rev ?d)" using dne by (simp add: hd_rev)
  obtain c cs where d: "?d = c # cs" using dne by (cases ?d) auto
  then have c: "\<not> py_isspace c" using hd_d by simp
  have "strip s = rev (dropWhile py_isspace (rev cs @ [c]))" by (simp add: strip_def d)
  also have "\<dots> = c # rev (dropWhile py_isspace (rev cs))" 
    using c by (simp add: dropWhile_append)
  finally show ?thesis using c by simp
qed

lemma last_strip: "strip s \<noteq> [] \<Longrightarrow> \<not> py_isspace (last (strip s))"
proof -
  assume ne: "strip s \<noteq> []"
  let ?e = "dropWhile py_isspace (rev (dropWhile py_isspace s))"
  have ene: "?e \<noteq> []" using ne by (simp add: strip_def)
  then have "\<not> py_isspace (hd ?e)" by (rule hd_dropWhile)
  moreover have "last (strip s) = hd ?e" using ene by (simp add: strip_def last_rev)
  ultimately show ?thesis by simp
qed

lemma strip_id: "s = [] \<or> (\<not> py_isspace (hd s) \<and> \<not> py_isspace (last s)) \<Longrightarrow> strip s = s"
proof (cases s rule: rev_cases)
  case Nil then show ?thesis by simp
next
  case (snoc ys y)
  assume "s = [] \<or> (\<not> py_isspace (hd s) \<and> \<not> py_isspace (last s))"
  with snoc have h: "\<not> py_isspace (hd s)" and l: "\<not> py_isspace y" by auto
  have "dropWhile py_isspace s = s" using h by (cases s) auto
  then show ?thesis using l snoc by (simp add: strip_def)
qed

lemma clean_strip: "clean l \<Longrightarrow> strip l = l"
  by (simp add: clean_def strip_id)

lemma strip_clean: "strip s \<noteq> [] \<Longrightarrow> \<forall>c\<in>set s. \<not> py_islinebreak c \<Longrightarrow> clean (strip s)"
  using set_strip [of s] by (auto simp: clean_def hd_strip last_strip)

lemma CR_linebreak: "py_islinebreak CR" and LF_linebreak: "py_islinebreak LF"
  by (simp_all add: py_islinebreak_def)

lemma splitlines_from_no_break:
  "l \<in> set (splitlines_from cur s) \<Longrightarrow> \<forall>c\<in>set cur. \<not> py_islinebreak c \<Longrightarrow>
   \<forall>c\<in>set l. \<not> py_islinebreak c"
proof (induction cur s rule: splitlines_from.induct)
  case (1 cur)
  then show ?case by (auto split: if_splits)
next
  case (2 cur c cs)
  show ?case
  proof (cases "c = CR")
    case True
    show ?thesis
    proof (cases cs)
      case Nil
      with True "2.prems" show ?thesis by auto
    next
      case (Cons d ds)
      show ?thesis
      proof (cases "d = LF")
        case dl: True
        with True Cons "2.prems" have "l = rev cur \<or> l \<in> set (splitlines_from [] ds)" by auto
        then show ?thesis
        proof
          assume "l = rev cur" with "2.prems" show ?thesis by auto
        next
          assume "l \<in> set (splitlines_from [] ds)"
          with "2.IH"(1) [OF True Cons dl] show ?thesis by simp
        qed
      next
        case dl: False
        with True Cons "2.prems" have "l = rev cur \<or> l \<in> set (splitlines_from [] (d # ds))" by auto
        then show ?thesis
        proof
          assume "l = rev cur" with "2.prems" show ?thesis by auto
        next
          assume "l \<in> set (splitlines_from [] (d # ds))"
          with "2.IH"(2) [OF True Cons dl] show ?thesis by simp
        qed
      qed
    qed
  next
    case False
    show ?thesis
    proof (cases "py_islinebreak c")
      case True
      with False "2.prems" have "l = rev cur \<or> l \<in> set (splitlines_from [] cs)" by auto
      then show ?thesis
      proof
        assume "l = rev cur" with "2.prems" show ?thesis by auto
      next
        assume "l \<in> set (splitlines_from [] cs)"
        with "2.IH"(3) [OF False True] show ?thesis by simp
      qed
    next
      case nb: False
      with False "2.prems" have "l \<in> set (splitlines_from (c # cur) cs)" by auto
      moreover have "\<forall>x\<in>set (c # cur). \<not> py_islinebreak x" using nb "2.prems" by auto
      ultimately show ?thesis using "2.IH"(4) [OF False nb] by blast
    qed
  qed
qed

lemma splitlines_no_break: "l \<in> set (splitlines s) \<Longrightarrow> \<forall>c\<in>set l. \<not> py_islinebreak c"
  unfolding splitlines_def by (erule splitlines_from_no_break) simp

lemma splitlines_from_segment:
  "\<forall>c\<in>set x. \<not> py_islinebreak c \<Longrightarrow>
   splitlines_from cur (x @ LF # rest) = (rev cur @ x) # splitlines_from [] rest"
proof (induction x arbitrary: cur)
  case Nil
  show ?case by (simp add: LF_linebreak)
next
  case (Cons c x)
  then have c: "\<not> py_islinebreak c" by simp
  then have "c \<noteq> CR" using CR_linebreak by auto
  with c Cons show ?case by simp
qed

lemma splitlines_from_last:
  "\<forall>c\<in>set x. \<not> py_islinebreak c \<Longrightarrow> cur \<noteq> [] \<or> x \<noteq> [] \<Longrightarrow>
   splitlines_from cur x = [rev cur @ x]"
proof (induction x arbitrary: cur)
  case Nil
  then show ?case by simp
next
  case (Cons c x)
  then have c: "\<not> py_islinebreak c" by simp
  then have "c \<noteq> CR" using CR_linebreak by auto
  with c Cons show ?case by simp
qed

lemma splitlines_join:
  "\<forall>x\<in>set xs. x \<noteq> [] \<and> (\<forall>c\<in>set x. \<not> py_islinebreak c) \<Longrightarrow> splitlines (join [LF] xs) = xs"
proof (induction xs)
  case Nil
  show ?case by (simp add: splitlines_def)
next
  case (Cons x xs)
  then have x: "\<forall>c\<in>set x. \<not> py_islinebreak c" and ne: "x \<noteq> []" by simp_all
  show ?case
  proof (cases xs)
    case Nil
    with x ne show ?thesis by (simp add: splitlines_def splitlines_from_last)
  next
    case (Cons y ys)
    have "splitlines (join [LF] (x # y # ys)) = x # splitlines (join [LF] (y # ys))"
      using splitlines_from_segment [OF x, of "[]"] by (simp add: splitlines_def)
    with Cons.IH Cons.prems Cons show ?thesis by simp
  qed
qed

lemma join_eq_Nil: "\<forall>x\<in>set xs. x \<noteq> [] \<Longrightarrow> join sep xs = [] \<longleftrightarrow> xs = []"
  by (induction sep xs rule: join.induct) auto

lemma hd_join: "xs \<noteq> [] \<Longrightarrow> hd xs \<noteq> [] \<Longrightarrow> hd (join sep xs) = hd (hd xs)"
  by (induction sep xs rule: join.induct) auto

lemma last_join_nonempty:
  "xs \<noteq> [] \<Longrightarrow> last xs \<noteq> [] \<Longrightarrow> join sep xs \<noteq> [] \<and> last (join sep xs) = last (last xs)"
  by (induction sep xs rule: join.induct) auto

lemma last_join: "xs \<noteq> [] \<Longrightarrow> last xs \<noteq> [] \<Longrightarrow> last (join sep xs) = last (last xs)"
  by (simp add: last_join_nonempty)

lemma strip_join: "\<forall>x\<in>set xs. clean x \<Longrightarrow> strip (join [LF] xs) = join [LF] xs"
proof (cases "xs = []")
  case True then show ?thesis by simp
next
  case False
  assume a: "\<forall>x\<in>set xs. clean x"
  from False a have "clean (hd xs)" "clean (last xs)" by auto
  then have "\<not> py_isspace (hd (join [LF] xs))" "\<not> py_isspace (last (join [LF] xs))"
    using False by (simp_all add: hd_join last_join clean_def)
  then show ?thesis by (simp add: strip_id)
qed

lemma lines_of_join: "\<forall>x\<in>set xs. clean x \<Longrightarrow> lines_of (join [LF] xs) = xs"
proof -
  assume a: "\<forall>x\<in>set xs. clean x"
  then have s: "splitlines (join [LF] xs) = xs"
    by (intro splitlines_join) (auto simp: clean_def)
  have "map strip (filter (\<lambda>l. strip l \<noteq> []) xs) = xs"
    using a by (induction xs) (auto simp: clean_strip clean_def)
  then show ?thesis by (simp add: lines_of_def strip_join [OF a] s)
qed

lemma lines_of_clean: "l \<in> set (lines_of s) \<Longrightarrow> clean l"
proof -
  assume "l \<in> set (lines_of s)"
  then obtain r where r: "r \<in> set (splitlines (strip s))" "strip r \<noteq> []" "l = strip r"
    by (auto simp: lines_of_def)
  from r(1) have "\<forall>c\<in>set r. \<not> py_islinebreak c" by (rule splitlines_no_break)
  with r(2,3) show ?thesis by (simp add: strip_clean)
qed

section \<open>Collecting and rewriting bullets\<close>

lemma ustr_dash_space: "ustr ''- '' = [HYPHEN, SPACE]"
  and ustr_space_dash_space: "ustr '' - '' = [SPACE, HYPHEN, SPACE]"
  by (simp_all add: ustr_def)

lemma collect_bullets_eq:
  "collect_bullets acc ls = acc @ map rewrite_bullet (filter (prefix (ustr ''- '')) ls)"
  by (induction ls arbitrary: acc) simp_all

lemma py_replace_set: "set (py_replace old new s) \<subseteq> set s \<union> set new"
proof (induction old new s rule: py_replace.induct)
  case (1 old new)
  show ?case by simp
next
  case (2 old new c cs)
  show ?case
  proof (cases "old \<noteq> [] \<and> prefix old (c # cs)")
    case True
    have "set (drop (length old) (c # cs)) \<subseteq> set (c # cs)" by (rule set_drop_subset)
    with "2.IH"(1) [OF True] True show ?thesis by auto
  next
    case False
    with "2.IH"(2) [OF False] show ?thesis by auto
  qed
qed

lemma py_replace_hd:
  "s \<noteq> [] \<Longrightarrow> old \<noteq> [] \<Longrightarrow> hd s \<noteq> hd old \<Longrightarrow> hd (py_replace old new s) = hd s"
  by (cases s; cases old) auto

lemma py_replace_last:
  "old \<noteq> [] \<Longrightarrow> s \<noteq> [] \<Longrightarrow> last s \<noteq> last old \<Longrightarrow>
   py_replace old new s \<noteq> [] \<and> last (py_replace old new s) = last s"
proof (induction old new s rule: py_replace.induct)
  case (1 old new)
  then show ?case by simp
next
  case (2 old new c cs)
  show ?case
  proof (cases "prefix old (c # cs)")
    case True
    then obtain r where r: "c # cs = old @ r" by (auto simp: prefix_def)
    with "2.prems" have rne: "r \<noteq> []" by auto
    have d: "drop (length old) (c # cs) = r" using r by simp
    have lr: "last r = last (c # cs)" using r rne by simp
    from "2.IH"(1) [unfolded d] True "2.prems" rne lr
    have "py_replace old new r \<noteq> [] \<and> last (py_replace old new r) = last r" by simp
    with True "2.prems"(1) d lr show ?thesis by simp
  next
    case False
    show ?thesis
    proof (cases cs)
      case Nil
      with False show ?thesis by simp
    next
      case (Cons d ds)
      with "2.IH"(2) False "2.prems" have "py_replace old new cs \<noteq> [] \<and> last (py_replace old new cs) = last cs"
        by simp
      with False Cons show ?thesis by simp
    qed
  qed
qed

lemma py_replace_absent: "\<not> sublist old s \<Longrightarrow> py_replace old new s = s"
proof (induction s)
  case Nil
  show ?case by simp
next
  case (Cons c cs)
  then have "\<not> prefix old (c # cs)" "\<not> sublist old cs"
    by (auto simp: sublist_Cons_right)
  with Cons.IH show ?case by simp
qed

lemma py_replace_char: "py_replace [a] [b] s = map (\<lambda>c. if c = a then b else c) s"
  by (induction s) auto

lemma bullet_text_nonempty:
  assumes "clean l" "prefix (ustr ''- '') l"
  shows "strip (drop 2 l) \<noteq> []"
proof -
  from assms(2) obtain r where l: "l = HYPHEN # SPACE # r"
    by (auto simp: ustr_dash_space prefix_def)
  have sp: "py_isspace SPACE" by (simp add: py_isspace_def)
  from assms(1) l sp have "r \<noteq> []" by (auto simp: clean_def)
  with assms(1) l have "last r \<in> set r" "\<not> py_isspace (last r)" by (auto simp: clean_def)
  then show ?thesis using l by (auto simp: strip_eq_Nil_iff)
qed

lemma clean_replace_dash:
  assumes "clean b"
  shows "clean (py_replace (ustr '' - '') [SPACE, EN_DASH, SPACE] b)"
proof -
  let ?old = "ustr '' - ''" and ?new = "[SPACE, EN_DASH, SPACE]"
  have sp: "py_isspace SPACE" by (simp add: py_isspace_def)
  from assms have ne: "b \<noteq> []" and h: "hd b \<noteq> SPACE" and l: "last b \<noteq> SPACE"
    using sp by (auto simp: clean_def)
  have 1: "hd (py_replace ?old ?new b) = hd b"
    using ne h by (intro py_replace_hd) (simp_all add: ustr_space_dash_space)
  have 2: "py_replace ?old ?new b \<noteq> [] \<and> last (py_replace ?old ?new b) = last b"
    using ne l by (intro py_replace_last) (simp_all add: ustr_space_dash_space)
  have 3: "\<forall>c\<in>set (py_replace ?old ?new b). \<not> py_islinebreak c"
    using py_replace_set [of ?old ?new b] assms
    by (auto simp: clean_def py_islinebreak_def)
  from 1 2 3 assms show ?thesis by (simp add: clean_def)
qed

lemma clean_replace_apostrophe:
  assumes "clean b"
  shows "clean (py_replace [CURLY_APOSTROPHE] [APOSTROPHE] b)"
proof -
  define f where "f = (\<lambda>c::nat. if c = CURLY_APOSTROPHE then APOSTROPHE else c)"
  have f: "\<not> py_isspace c \<Longrightarrow> \<not> py_isspace (f c)" for c
    by (simp add: f_def py_isspace_def)
  have g: "\<not> py_islinebreak c \<Longrightarrow> \<not> py_islinebreak (f c)" for c
    by (simp add: f_def py_islinebreak_def)
  from assms have ne: "b \<noteq> []" by (simp add: clean_def)
  have r: "py_replace [CURLY_APOSTROPHE] [APOSTROPHE] b = map f b"
    by (simp add: py_replace_char f_def)
  have 1: "hd (map f b) = f (hd b)" using ne by (simp add: hd_map)
  have 2: "last (map f b) = f (last b)" using ne by (simp add: last_map)
  have 3: "\<forall>c\<in>set (map f b). \<not> py_islinebreak c" using assms g by (auto simp: clean_def)
  show ?thesis
    unfolding r clean_def using ne 1 2 3 assms f by (simp add: clean_def)
qed

lemma clean_rewrite_bullet:
  "clean l \<Longrightarrow> prefix (ustr ''- '') l \<Longrightarrow> clean (rewrite_bullet l)"
proof -
  assume l: "clean l" and p: "prefix (ustr ''- '') l"
  have "set (drop 2 l) \<subseteq> set l" by (rule set_drop_subset)
  with l have "\<forall>c\<in>set (drop 2 l). \<not> py_islinebreak c" by (auto simp: clean_def)
  with bullet_text_nonempty [OF l p] have "clean (strip (drop 2 l))" by (simp add: strip_clean)
  then show ?thesis
    by (simp add: rewrite_bullet_def clean_replace_dash clean_replace_apostrophe)
qed

lemma rewrite_bullet_no_curly: "CURLY_APOSTROPHE \<notin> set (rewrite_bullet l)"
  by (auto simp: rewrite_bullet_def py_replace_char)

lemma rewrite_bullet_fixed:
  assumes "clean b" "\<not> sublist (ustr '' - '') b" "CURLY_APOSTROPHE \<notin> set b"
  shows "rewrite_bullet (ustr ''- '' @ b) = b"
proof -
  have "map (\<lambda>c. if c = CURLY_APOSTROPHE then APOSTROPHE else c) b = b"
    using assms(3) by (induction b) auto
  then show ?thesis
    using assms(1,2)
    by (simp add: rewrite_bullet_def ustr_dash_space clean_strip py_replace_absent py_replace_char)
qed

section \<open>The lines of the normalized output\<close>

lemma clean_sentinel: "clean sentinel"
proof -
  have "\<forall>c\<in>set sentinel. \<not> py_islinebreak c"
    by (simp add: sentinel_def ustr_def py_islinebreak_def)
  moreover have "hd sentinel = 78" "last sentinel = FULL_STOP" "sentinel \<noteq> []"
    by (simp_all add: sentinel_def ustr_def)
  moreover have "\<not> py_isspace 78" "\<not> py_isspace FULL_STOP"
    by (simp_all add: py_isspace_def)
  ultimately show ?thesis by (simp add: clean_def)
qed

lemma clean_dash_line:
  assumes "clean b"
  shows "clean (ustr ''- '' @ b)"
proof -
  have "\<not> py_isspace HYPHEN" "\<not> py_islinebreak HYPHEN" "\<not> py_islinebreak SPACE"
    by (simp_all add: py_isspace_def py_islinebreak_def)
  with assms show ?thesis by (simp add: clean_def ustr_dash_space)
qed

lemma set_slice_upto: "set (slice_upto n xs) \<subseteq> set xs"
  by (auto simp: slice_upto_def dest: in_set_takeD)

lemma length_slice_upto: "0 \<le> n \<Longrightarrow> int (length (slice_upto n xs)) \<le> n"
  by (simp add: slice_upto_def)

lemma collected_clean:
  "\<forall>l\<in>set ls. clean l \<Longrightarrow> \<forall>b\<in>set (collect_bullets [] ls). clean b"
  by (auto simp: collect_bullets_eq clean_rewrite_bullet)

lemma clamped_clean:
  "\<forall>l\<in>set ls. clean l \<Longrightarrow> \<forall>b\<in>set (clamp_bullets n (collect_bullets [] ls)). clean b"
proof
  fix b assume ls: "\<forall>l\<in>set ls. clean l" and b: "b \<in> set (clamp_bullets n (collect_bullets [] ls))"
  have "set (clamp_bullets n (collect_bullets [] ls))
          \<subseteq> set (if collect_bullets [] ls = [] then [sentinel] else collect_bullets [] ls)"
    unfolding clamp_bullets_def by (rule set_slice_upto)
  with b have "b = sentinel \<or> b \<in> set (collect_bullets [] ls)"
    by (cases "collect_bullets [] ls = []") auto
  then show "clean b" using collected_clean [OF ls] clean_sentinel by blast
qed

lemma select_price_in: "select_price l0 rest \<in> set (l0 # rest)"
  unfolding select_price_def
  by (cases "find PRICE_RE_match (l0 # rest)") (auto simp: find_Some_iff split: if_splits)

lemma final_lines_clean:
  assumes "\<forall>l\<in>set ls. clean l"
  shows "\<forall>x\<in>set (final_lines ls n). clean x"
proof (cases ls)
  case Nil
  then show ?thesis by (simp add: final_lines_def)
next
  case (Cons l0 rest)
  have "clean (select_price l0 rest)" using select_price_in [of l0 rest] assms Cons by blast
  moreover have "\<forall>b\<in>set (clamp_bullets n (collect_bullets [] ls)). clean (ustr ''- '' @ b)"
    using clamped_clean [OF assms] clean_dash_line by blast
  ultimately show ?thesis using Cons by (auto simp: final_lines_def)
qed

lemma format_guard_lines:
  assumes "lines_of s \<noteq> []"
  shows "format_guard s n = join [LF] (final_lines (lines_of s) n)"
    and "splitlines (format_guard s n) = final_lines (lines_of s) n"
    and "lines_of (format_guard s n) = final_lines (lines_of s) n"
proof -
  have c: "\<forall>x\<in>set (final_lines (lines_of s) n). clean x"
    by (rule final_lines_clean) (simp add: lines_of_clean)
  show 1: "format_guard s n = join [LF] (final_lines (lines_of s) n)"
    using assms by (simp add: format_guard_def)
  show "splitlines (format_guard s n) = final_lines (lines_of s) n"
    unfolding 1 using c by (intro splitlines_join) (auto simp: clean_def)
  show "lines_of (format_guard s n) = final_lines (lines_of s) n"
    unfolding 1 using c by (rule lines_of_join)
qed

text \<open>The definitions unfolded to evaluate the normalizer on a concrete text.\<close>

lemmas eval_defs =
  format_guard_def lines_of_def strip_def splitlines_def ustr_def py_isspace_def
  py_islinebreak_def final_lines_def select_price_def PRICE_RE_match_def clamp_bullets_def
  slice_upto_def rewrite_bullet_def py_isdecimal_def decimal_zeros_def sentinel_def

lemma lines_of_example:
  "lines_of (ustr ''$1'' @ [LF] @ ustr ''- a'' @ [LF] @ ustr ''- b'') = [ustr ''$1'', ustr ''- a'', ustr ''- b'']"
  by (simp add: eval_defs)

section \<open>The price pattern\<close>

text \<open>
  What \<open>PRICE_RE\<close> accepts: a dollar sign, a digit, then digits and commas, then at
  most one full stop, then digits, up to the end of the line (or a final line feed).
\<close>

lemma not_decimal: "\<not> py_isdecimal FULL_STOP" "\<not> py_isdecimal LF" "\<not> py_isdecimal COMMA"
  by (simp_all add: py_isdecimal_def decimal_zeros_def)

lemma PRICE_RE_match_iff:
  "PRICE_RE_match l \<longleftrightarrow>
     (\<exists>d g p f e. l = DOLLAR # d # g @ p @ f @ e \<and> py_isdecimal d \<and>
        (\<forall>c\<in>set g. py_isdecimal c \<or> c = COMMA) \<and> (p = [] \<or> p = [FULL_STOP]) \<and>
        (\<forall>c\<in>set f. py_isdecimal c) \<and> (e = [] \<or> e = [LF]))"
  (is "?L \<longleftrightarrow> ?R")
proof
  assume ?L
  then obtain d rest where l: "l = DOLLAR # d # rest" and d: "py_isdecimal d"
    by (auto simp: PRICE_RE_match_def split: list.splits)
  let ?P = "\<lambda>c. py_isdecimal c \<or> c = COMMA"
  define g where "g = takeWhile ?P rest"
  define r1 where "r1 = dropWhile ?P rest"
  define p where "p = (case r1 of [] \<Rightarrow> [] | c # r \<Rightarrow> if c = FULL_STOP then [FULL_STOP] else [])"
  define r2 where "r2 = (case r1 of [] \<Rightarrow> [] | c # r \<Rightarrow> if c = FULL_STOP then r else r1)"
  define f where "f = takeWhile py_isdecimal r2"
  define e where "e = dropWhile py_isdecimal r2"
  have 1: "rest = g @ r1" by (simp add: g_def r1_def)
  have 2: "r1 = p @ r2" by (cases r1) (auto simp: p_def r2_def)
  have 3: "r2 = f @ e" by (simp add: f_def e_def)
  have e: "e = [] \<or> e = [LF]"
    using \<open>?L\<close> unfolding l PRICE_RE_match_def e_def r2_def r1_def Let_def list.case by blast
  have g: "\<forall>c\<in>set g. ?P c" unfolding g_def by (auto dest: set_takeWhileD)
  have f: "\<forall>c\<in>set f. py_isdecimal c" unfolding f_def by (auto dest: set_takeWhileD)
  have p: "p = [] \<or> p = [FULL_STOP]" by (cases r1) (auto simp: p_def)
  have "l = DOLLAR # d # g @ p @ f @ e" using l 1 2 3 by simp
  with d g p f e show ?R by blast
next
  assume ?R
  then obtain d g p f e where l: "l = DOLLAR # d # g @ p @ f @ e" and d: "py_isdecimal d"
    and g: "\<forall>c\<in>set g. py_isdecimal c \<or> c = COMMA" and p: "p = [] \<or> p = [FULL_STOP]"
    and f: "\<forall>c\<in>set f. py_isdecimal c" and e: "e = [] \<or> e = [LF]"
    by blast
  let ?P = "\<lambda>c. py_isdecimal c \<or> c = COMMA"
  have r1: "dropWhile ?P (g @ p @ f @ e) = dropWhile ?P (p @ f @ e)"
    using g by (intro dropWhile_append2) blast
  have fe: "dropWhile py_isdecimal (f @ e) = e"
  proof -
    have "dropWhile py_isdecimal (f @ e) = dropWhile py_isdecimal e"
      using f by (intro dropWhile_append2) blast
    with e show ?thesis using not_decimal by auto
  qed
  show ?L
  proof (cases "p = []")
    case True
    have "dropWhile ?P (f @ e) = dropWhile ?P e"
      using f by (intro dropWhile_append2) blast
    then have "dropWhile ?P (f @ e) = e" using e not_decimal by auto
    with True l d e r1 not_decimal show ?thesis
      by (auto simp: PRICE_RE_match_def)
  next
    case False
    with p have "p = [FULL_STOP]" by simp
    then have "dropWhile ?P (g @ p @ f @ e) = FULL_STOP # f @ e"
      using r1 not_decimal by simp
    with l d fe e show ?thesis by (auto simp: PRICE_RE_match_def)
  qed
qed

section \<open>Price line and bullets of the normalized output\<close>

text \<open>
  Claim C3, for a bound that is not negative. When some trimmed line of the input starts
  with \<open>"- "\<close> and \<open>0 \<le> max_bullets\<close>, the output of \<open>format_guard\<close> is one price line
  \<open>p\<close>, taken from the input's lines, followed by the bullet lines \<open>"- " + b\<close>, joined
  by line feeds; splitting the output into lines gives back exactly these lines, and the
  number of bullets lies between \<open>0\<close> and \<open>max_bullets\<close>.
\<close>

theorem bullet_count_bounded:
  assumes "\<exists>l\<in>set (lines_of s). prefix (ustr ''- '') l" and "0 \<le> n"
  shows "\<exists>p bs. p \<in> set (lines_of s) \<and> 0 \<le> int (length bs) \<and> int (length bs) \<le> n \<and>
           format_guard s n = join [LF] (p # map (\<lambda>b. ustr ''- '' @ b) bs) \<and>
           splitlines (format_guard s n) = p # map (\<lambda>b. ustr ''- '' @ b) bs"
proof -
  from assms(1) obtain l0 rest where ls: "lines_of s = l0 # rest" by (cases "lines_of s") auto
  let ?bs = "clamp_bullets n (collect_bullets [] (lines_of s))"
  have f: "final_lines (lines_of s) n = select_price l0 rest # map (\<lambda>b. ustr ''- '' @ b) ?bs"
    by (simp add: final_lines_def ls)
  have "select_price l0 rest \<in> set (lines_of s)" using select_price_in [of l0 rest] ls by simp
  moreover have "int (length ?bs) \<le> n" using assms(2) by (simp add: clamp_bullets_def length_slice_upto)
  moreover have "lines_of s \<noteq> []" using ls by simp
  ultimately show ?thesis using format_guard_lines(1,2) [of s n] f by (intro exI [of _ "select_price l0 rest"] exI [of _ ?bs]) simp
qed

theorem bullet_count_bounded_witness:
  "\<exists>p bs. p \<in> set (lines_of (ustr ''$1'' @ [LF] @ ustr ''- a'' @ [LF] @ ustr ''- b'')) \<and>
      0 \<le> int (length bs) \<and> int (length bs) \<le> 1 \<and>
      format_guard (ustr ''$1'' @ [LF] @ ustr ''- a'' @ [LF] @ ustr ''- b'') 1 =
        join [LF] (p # map (\<lambda>b. ustr ''- '' @ b) bs) \<and>
      splitlines (format_guard (ustr ''$1'' @ [LF] @ ustr ''- a'' @ [LF] @ ustr ''- b'') 1) =
        p # map (\<lambda>b. ustr ''- '' @ b) bs"
proof -
  have h: "\<exists>l\<in>set (lines_of (ustr ''$1'' @ [LF] @ ustr ''- a'' @ [LF] @ ustr ''- b'')). prefix (ustr ''- '') l"
    unfolding lines_of_example by (simp add: ustr_def)
  have n: "(0::int) \<le> 1" by simp
  show ?thesis by (rule bullet_count_bounded [OF h n])
qed

text \<open>
  With \<open>max_bullets = -1\<close> the slice \<open>bullets[:-1]\<close> drops the last of two bullets and
  keeps one, more than the bound.
\<close>

theorem bullet_count_negative_counterexample:
  "splitlines (format_guard (ustr ''$1'' @ [LF] @ ustr ''- a'' @ [LF] @ ustr ''- b'') (- 1)) =
     [ustr ''$1'', ustr ''- a''] \<and>
   \<not> int (length [ustr ''- a'']) \<le> - 1"
  by (simp add: eval_defs)

text \<open>
  Claim C4, for a bound of at least one. When the input has a non-empty trimmed line,
  none of its lines starts with \<open>"- "\<close> and \<open>1 \<le> max_bullets\<close>, the output is the price
  line followed by the single bullet line \<open>"- No recent headlines found."\<close>.
\<close>

theorem sentinel_bullet:
  assumes "lines_of s \<noteq> []" and "\<forall>l\<in>set (lines_of s). \<not> prefix (ustr ''- '') l" and "1 \<le> n"
  shows "\<exists>p. p \<in> set (lines_of s) \<and>
           format_guard s n = p @ [LF] @ ustr ''- No recent headlines found.'' \<and>
           splitlines (format_guard s n) = [p, ustr ''- No recent headlines found.'']"
proof -
  from assms(1) obtain l0 rest where ls: "lines_of s = l0 # rest" by (cases "lines_of s") auto
  have "filter (prefix (ustr ''- '')) (lines_of s) = []" using assms(2) by (simp add: filter_empty_conv)
  then have "collect_bullets [] (lines_of s) = []" by (simp add: collect_bullets_eq)
  moreover have "slice_upto n [sentinel] = [sentinel]" using assms(3) by (simp add: slice_upto_def)
  ultimately have f: "final_lines (lines_of s) n = [select_price l0 rest, ustr ''- '' @ sentinel]"
    by (simp add: final_lines_def ls clamp_bullets_def)
  have t: "ustr ''- '' @ sentinel = ustr ''- No recent headlines found.''"
    by (simp add: ustr_def sentinel_def)
  have "select_price l0 rest \<in> set (lines_of s)" using select_price_in [of l0 rest] ls by simp
  then show ?thesis using format_guard_lines(1,2) [OF assms(1), of n] f t
    by (intro exI [of _ "select_price l0 rest"]) simp
qed

theorem sentinel_bullet_witness:
  "format_guard (ustr ''$1'') 1 = ustr ''$1'' @ [LF] @ ustr ''- No recent headlines found.'' \<and>
   splitlines (format_guard (ustr ''$1'') 1) = [ustr ''$1'', ustr ''- No recent headlines found.'']"
proof -
  have l: "lines_of (ustr ''$1'') = [ustr ''$1'']" by (simp add: eval_defs)
  have h1: "lines_of (ustr ''$1'') \<noteq> []" unfolding l by simp
  have h2: "\<forall>l\<in>set (lines_of (ustr ''$1'')). \<not> prefix (ustr ''- '') l" unfolding l by (simp add: ustr_def)
  have h3: "(1::int) \<le> 1" by simp
  from sentinel_bullet [OF h1 h2 h3] show ?thesis unfolding l by auto
qed

text \<open>With \<open>max_bullets = 0\<close> the slice removes the sentinel: the output is the price line alone.\<close>

theorem sentinel_bullet_counterexample:
  "lines_of (ustr ''$1'') = [ustr ''$1''] \<and> format_guard (ustr ''$1'') 0 = ustr ''$1''"
  by (simp add: eval_defs)



section \<open>Normalizing twice\<close>

lemma dash_line_no_price: "\<not> PRICE_RE_match (ustr ''- '' @ b)"
  by (simp add: PRICE_RE_match_def ustr_dash_space)

lemma select_price_fixed: "select_price p (map (\<lambda>b. ustr ''- '' @ b) bs) = p"
proof (cases "PRICE_RE_match p")
  case True
  then show ?thesis by (simp add: select_price_def)
next
  case False
  have "find PRICE_RE_match (map (\<lambda>b. ustr ''- '' @ b) bs) = None"
    by (simp add: find_None_iff dash_line_no_price)
  with False show ?thesis by (simp add: select_price_def)
qed

lemma sentinel_plain:
  "\<not> sublist (ustr '' - '') sentinel" "CURLY_APOSTROPHE \<notin> set sentinel"
  by (simp_all add: sentinel_def ustr_def sublist_Cons_right)

lemma clamp_bullets_cases:
  "set (clamp_bullets n bs) \<subseteq> insert sentinel (set bs)"
proof -
  have "set (clamp_bullets n bs) \<subseteq> set (if bs = [] then [sentinel] else bs)"
    unfolding clamp_bullets_def by (rule set_slice_upto)
  then show ?thesis by (cases "bs = []") auto
qed

lemma clamp_bullets_idem:
  assumes "0 \<le> n"
  shows "clamp_bullets n (clamp_bullets n bs) = clamp_bullets n bs"
proof -
  let ?X = "if bs = [] then [sentinel] else bs"
  have c: "clamp_bullets n bs = take (nat n) ?X" using assms by (simp add: clamp_bullets_def slice_upto_def)
  have X: "?X \<noteq> []" by simp
  show ?thesis
  proof (cases "take (nat n) ?X = []")
    case True
    with X have "nat n = 0" by (simp add: take_eq_Nil)
    with True c assms show ?thesis by (simp add: clamp_bullets_def slice_upto_def)
  next
    case False
    with c assms show ?thesis by (simp add: clamp_bullets_def slice_upto_def)
  qed
qed

lemma collect_dash_lines:
  assumes "\<not> prefix (ustr ''- '') p"
    and "\<forall>b\<in>set bs. clean b \<and> \<not> sublist (ustr '' - '') b \<and> CURLY_APOSTROPHE \<notin> set b"
  shows "collect_bullets [] (p # map (\<lambda>b. ustr ''- '' @ b) bs) = bs"
proof -
  have "filter (prefix (ustr ''- '')) (map (\<lambda>b. ustr ''- '' @ b) bs) = map (\<lambda>b. ustr ''- '' @ b) bs"
    by (induction bs) simp_all
  moreover have "map rewrite_bullet (map (\<lambda>b. ustr ''- '' @ b) bs) = bs"
    using assms(2) by (induction bs) (simp_all add: rewrite_bullet_fixed)
  ultimately show ?thesis using assms(1) by (simp add: collect_bullets_eq)
qed

text \<open>
  Claim C1, under the conditions the code needs. When \<open>max_bullets\<close> is not negative, the
  price line chosen for the input does not itself start with \<open>"- "\<close>, and no rewritten
  bullet of the input still contains \<open>" - "\<close>, applying \<open>format_guard\<close> to its own output
  gives that output again.
\<close>

theorem format_guard_idempotent:
  assumes "0 \<le> n"
    and "\<forall>l0 rest. lines_of s = l0 # rest \<longrightarrow> \<not> prefix (ustr ''- '') (select_price l0 rest)"
    and "\<forall>b\<in>set (collect_bullets [] (lines_of s)). \<not> sublist (ustr '' - '') b"
  shows "format_guard (format_guard s n) n = format_guard s n"
proof (cases "lines_of s")
  case Nil
  then have "format_guard s n = s" by (simp add: format_guard_def)
  then show ?thesis by simp
next
  case (Cons l0 rest)
  let ?p = "select_price l0 rest"
  let ?c = "collect_bullets [] (lines_of s)"
  let ?bs = "clamp_bullets n ?c"
  have ne: "lines_of s \<noteq> []" using Cons by simp
  have f: "final_lines (lines_of s) n = ?p # map (\<lambda>b. ustr ''- '' @ b) ?bs"
    by (simp add: final_lines_def Cons)
  have l2: "lines_of (format_guard s n) = ?p # map (\<lambda>b. ustr ''- '' @ b) ?bs"
    using format_guard_lines(3) [OF ne, of n] f by simp
  have p: "\<not> prefix (ustr ''- '') ?p" using assms(2) Cons by blast
  have lc: "\<forall>l\<in>set (lines_of s). clean l" by (simp add: lines_of_clean)
  have good: "\<forall>b\<in>set ?bs. clean b \<and> \<not> sublist (ustr '' - '') b \<and> CURLY_APOSTROPHE \<notin> set b"
  proof
    fix b assume b: "b \<in> set ?bs"
    then have cb: "clean b" using clamped_clean [OF lc, of n] by blast
    from b clamp_bullets_cases [of n ?c] have "b = sentinel \<or> b \<in> set ?c" by blast
    then have "\<not> sublist (ustr '' - '') b \<and> CURLY_APOSTROPHE \<notin> set b"
    proof
      assume "b = sentinel" then show ?thesis using sentinel_plain by simp
    next
      assume bc: "b \<in> set ?c"
      then have "\<not> sublist (ustr '' - '') b" using assms(3) by blast
      moreover from bc have "CURLY_APOSTROPHE \<notin> set b"
        by (auto simp: collect_bullets_eq rewrite_bullet_no_curly)
      ultimately show ?thesis by simp
    qed
    with cb show "clean b \<and> \<not> sublist (ustr '' - '') b \<and> CURLY_APOSTROPHE \<notin> set b" by simp
  qed
  have cb: "collect_bullets [] (?p # map (\<lambda>b. ustr ''- '' @ b) ?bs) = ?bs"
    by (rule collect_dash_lines [OF p good])
  have "final_lines (?p # map (\<lambda>b. ustr ''- '' @ b) ?bs) n =
          select_price ?p (map (\<lambda>b. ustr ''- '' @ b) ?bs) #
          map (\<lambda>b. ustr ''- '' @ b)
            (clamp_bullets n (collect_bullets [] (?p # map (\<lambda>b. ustr ''- '' @ b) ?bs)))"
    by (simp add: final_lines_def del: collect_bullets.simps)
  then have "final_lines (?p # map (\<lambda>b. ustr ''- '' @ b) ?bs) n = ?p # map (\<lambda>b. ustr ''- '' @ b) ?bs"
    unfolding cb select_price_fixed clamp_bullets_idem [OF assms(1)] .
  then have "format_guard (format_guard s n) n = join [LF] (?p # map (\<lambda>b. ustr ''- '' @ b) ?bs)"
    by (simp add: format_guard_def [of "format_guard s n"] l2)
  also have "\<dots> = format_guard s n"
    using format_guard_lines(1) [OF ne, of n] f by simp
  finally show ?thesis .
qed

theorem format_guard_idempotent_witness:
  "format_guard (format_guard (ustr ''$1'' @ [LF] @ ustr ''- a'' @ [LF] @ ustr ''- b'') 1) 1 =
     format_guard (ustr ''$1'' @ [LF] @ ustr ''- a'' @ [LF] @ ustr ''- b'') 1 \<and>
   format_guard (ustr ''$1'' @ [LF] @ ustr ''- a'' @ [LF] @ ustr ''- b'') 1 = ustr ''$1'' @ [LF] @ ustr ''- a''"
proof -
  let ?s = "ustr ''$1'' @ [LF] @ ustr ''- a'' @ [LF] @ ustr ''- b''"
  have n: "(0::int) \<le> 1" by simp
  have h2: "\<forall>l0 rest. lines_of ?s = l0 # rest \<longrightarrow> \<not> prefix (ustr ''- '') (select_price l0 rest)"
    unfolding lines_of_example by (simp add: eval_defs)
  have h3: "\<forall>b\<in>set (collect_bullets [] (lines_of ?s)). \<not> sublist (ustr '' - '') b"
    unfolding lines_of_example by (simp add: eval_defs sublist_Cons_right)
  have v: "format_guard ?s 1 = ustr ''$1'' @ [LF] @ ustr ''- a''" by (simp add: eval_defs)
  from format_guard_idempotent [OF n h2 h3] v show ?thesis by simp
qed

text \<open>
  Each condition is needed. For \<open>"- a"\<close> the first line is both price line and bullet, and
  every further pass adds a bullet. In \<open>"a - - b"\<close> the two occurrences of \<open>" - "\<close> share
  a space: one pass rewrites the first, the next pass the second. With \<open>max_bullets = -1\<close>
  every pass drops another bullet.
\<close>

theorem format_guard_idempotent_counterexample:
  "format_guard (format_guard (ustr ''- a'') 4) 4 \<noteq> format_guard (ustr ''- a'') 4 \<and>
   format_guard (format_guard (ustr ''$1'' @ [LF] @ ustr ''- a - - b'') 4) 4 \<noteq>
     format_guard (ustr ''$1'' @ [LF] @ ustr ''- a - - b'') 4 \<and>
   format_guard (format_guard (ustr ''$1'' @ [LF] @ ustr ''- a'' @ [LF] @ ustr ''- b'') (- 1)) (- 1) \<noteq>
     format_guard (ustr ''$1'' @ [LF] @ ustr ''- a'' @ [LF] @ ustr ''- b'') (- 1)"
proof -
  have 1: "format_guard (ustr ''- a'') 4 = ustr ''- a'' @ [LF] @ ustr ''- a''"
    by (simp add: eval_defs)
  have 2: "format_guard (ustr ''- a'' @ [LF] @ ustr ''- a'') 4 =
             ustr ''- a'' @ [LF] @ ustr ''- a'' @ [LF] @ ustr ''- a''"
    by (simp add: eval_defs)
  have 3: "format_guard (ustr ''$1'' @ [LF] @ ustr ''- a - - b'') 4 =
             ustr ''$1'' @ [LF] @ ustr ''- a '' @ [EN_DASH] @ ustr '' - b''"
    by (simp add: eval_defs)
  have 4: "format_guard (ustr ''$1'' @ [LF] @ ustr ''- a '' @ [EN_DASH] @ ustr '' - b'') 4 =
             ustr ''$1'' @ [LF] @ ustr ''- a '' @ [EN_DASH] @ ustr '' '' @ [EN_DASH] @ ustr '' b''"
    by (simp add: eval_defs)
  have 5: "format_guard (ustr ''$1'' @ [LF] @ ustr ''- a'' @ [LF] @ ustr ''- b'') (- 1) =
             ustr ''$1'' @ [LF] @ ustr ''- a''"
    by (simp add: eval_defs)
  have 6: "format_guard (ustr ''$1'' @ [LF] @ ustr ''- a'') (- 1) = ustr ''$1''"
    by (simp add: eval_defs)
  show ?thesis unfolding 1 2 3 4 5 6 by (simp add: ustr_def)
qed

section \<open>The marker variant and empty input\<close>

lemma split_once_prefix:
  "prefix sep s \<Longrightarrow> s \<noteq> [] \<Longrightarrow> split_once sep s = Some ([], drop (length sep) s)"
  by (cases s) simp_all

lemma split_once_first:
  assumes "s = h @ sep @ t" and "\<forall>h' t'. s = h' @ sep @ t' \<longrightarrow> length h \<le> length h'"
    and "sep \<noteq> []"
  shows "split_once sep s = Some (h, t)"
  using assms
proof (induction h arbitrary: s)
  case Nil
  then have p: "prefix sep s" and ne: "s \<noteq> []" by simp_all
  from split_once_prefix [OF p ne] Nil.prems(1) show ?case by simp
next
  case (Cons c h)
  have s: "s = c # (h @ sep @ t)" using Cons.prems(1) by simp
  have np: "\<not> prefix sep s"
  proof
    assume "prefix sep s"
    then obtain r where "s = [] @ sep @ r" by (auto simp: prefix_def)
    with Cons.prems(2) have "length (c # h) \<le> length ([]::nat list)" by blast
    then show False by simp
  qed
  have "\<forall>h' t'. h @ sep @ t = h' @ sep @ t' \<longrightarrow> length h \<le> length h'"
  proof (intro allI impI)
    fix h' t' assume "h @ sep @ t = h' @ sep @ t'"
    then have "s = (c # h') @ sep @ t'" using s by simp
    with Cons.prems(2) have "length (c # h) \<le> length (c # h')" by blast
    then show "length h \<le> length h'" by simp
  qed
  then have "split_once sep (h @ sep @ t) = Some (h, t)"
    using Cons.IH [of "h @ sep @ t"] Cons.prems(3) by simp
  with np s show ?case by simp
qed

lemma split_once_Some:
  assumes "split_once sep s = Some (h, t)" and "sep \<noteq> []"
  shows "s = h @ sep @ t \<and> (\<forall>h' t'. s = h' @ sep @ t' \<longrightarrow> length h \<le> length h')"
  using assms
proof (induction s arbitrary: h)
  case Nil
  then show ?case by simp
next
  case (Cons c cs)
  show ?case
  proof (cases "prefix sep (c # cs)")
    case True
    with Cons.prems have "h = []" "t = drop (length sep) (c # cs)" by simp_all
    moreover from True obtain r where "c # cs = sep @ r" by (auto simp: prefix_def)
    ultimately show ?thesis by simp
  next
    case False
    with Cons.prems obtain h0 where h0: "split_once sep cs = Some (h0, t)" "h = c # h0"
      by (auto split: prod.splits)
    from Cons.IH [OF h0(1) Cons.prems(2)]
    have cs: "cs = h0 @ sep @ t" and mn: "\<forall>h' t'. cs = h' @ sep @ t' \<longrightarrow> length h0 \<le> length h'"
      by simp_all
    have "\<forall>h' t'. c # cs = h' @ sep @ t' \<longrightarrow> length h \<le> length h'"
    proof (intro allI impI)
      fix h' t' assume e: "c # cs = h' @ sep @ t'"
      show "length h \<le> length h'"
      proof (cases h')
        case Nil
        with e have "prefix sep (c # cs)" by (simp add: prefix_def)
        with False show ?thesis by simp
      next
        case (Cons d h'')
        with e have "cs = h'' @ sep @ t'" by simp
        with mn have "length h0 \<le> length h''" by blast
        with Cons h0(2) show ?thesis by simp
      qed
    qed
    with cs h0(2) show ?thesis by simp
  qed
qed

lemma marker_nonempty: "marker \<noteq> []" and hyphen_in_marker: "HYPHEN \<in> set marker"
  by (simp_all add: marker_def ustr_def)

lemma whitespace_no_lines: "\<forall>c\<in>set s. py_isspace c \<Longrightarrow> lines_of s = []"
proof -
  assume "\<forall>c\<in>set s. py_isspace c"
  then have "strip s = []" by (simp add: strip_eq_Nil_iff)
  then show ?thesis by (simp add: lines_of_def splitlines_def)
qed

text \<open>
  Claim C9. When \<open>h\<close> is the text before the first occurrence of the marker
  \<open>"----Final Result----"\<close> in the input and \<open>t\<close> the text after it, the launcher's
  \<open>format_guard\<close> returns \<open>h\<close> unchanged, then the marker, then the result of
  \<open>_format_final_block\<close> on \<open>t\<close> alone.
\<close>

theorem marker_frame:
  assumes "out_str = h @ marker @ t"
    and "\<forall>h' t'. out_str = h' @ marker @ t' \<longrightarrow> length h \<le> length h'"
  shows "demo_format_guard out_str n = h @ marker @ format_final_block t n"
proof -
  have "\<not> py_isspace HYPHEN" by (simp add: py_isspace_def)
  moreover have "HYPHEN \<in> set out_str" using assms(1) hyphen_in_marker by simp
  ultimately have "strip out_str \<noteq> []" unfolding strip_eq_Nil_iff by blast
  moreover have "split_once marker out_str = Some (h, t)"
    using assms marker_nonempty by (rule split_once_first)
  ultimately show ?thesis by (simp add: demo_format_guard_def)
qed

theorem marker_frame_witness:
  "demo_format_guard (ustr ''log - x'' @ marker @ ustr ''$1'') 4 =
     ustr ''log - x'' @ marker @ [LF] @ ustr ''$1'' @ [LF] @ ustr ''- No recent headlines found.'' @ [LF]"
proof -
  let ?s = "ustr ''log - x'' @ marker @ ustr ''$1''"
  have sp: "split_once marker ?s = Some (ustr ''log - x'', ustr ''$1'')"
    by (simp add: marker_def ustr_def)
  from split_once_Some [OF sp marker_nonempty]
  have h1: "?s = ustr ''log - x'' @ marker @ ustr ''$1''"
    and h2: "\<forall>h' t'. ?s = h' @ marker @ t' \<longrightarrow> length (ustr ''log - x'') \<le> length h'"
    by blast+
  have f: "format_final_block (ustr ''$1'') 4 =
             [LF] @ ustr ''$1'' @ [LF] @ ustr ''- No recent headlines found.'' @ [LF]"
    by (simp add: format_final_block_def eval_defs)
  show ?thesis using marker_frame [OF h1 h2, of 4] unfolding f by simp
qed

text \<open>
  Claim C10, as the code has it. For an input that is empty or all whitespace, both
  \<open>format_guard\<close> functions return the input itself, whatever it is, and
  \<open>_format_final_block\<close> returns the fixed text \<open>"\n\n(No output)\n"\<close>; none of them
  builds a price line with bullets.
\<close>

theorem whitespace_input:
  assumes "\<forall>c\<in>set s. py_isspace c"
  shows "format_guard s n = s \<and> demo_format_guard s n = s \<and>
         format_final_block s n = [LF, LF] @ ustr ''(No output)'' @ [LF]"
proof -
  from assms have "strip s = []" by (simp add: strip_eq_Nil_iff)
  with whitespace_no_lines [OF assms] show ?thesis
    by (simp add: format_guard_def demo_format_guard_def format_final_block_def no_output_def)
qed

theorem whitespace_input_witness:
  "format_guard [SPACE, LF] 4 = [SPACE, LF] \<and> demo_format_guard [SPACE, LF] 4 = [SPACE, LF] \<and>
   format_final_block [SPACE, LF] 4 = [LF, LF] @ ustr ''(No output)'' @ [LF]"
proof -
  have h: "\<forall>c\<in>set [SPACE, LF]. py_isspace c" by (simp add: py_isspace_def)
  show ?thesis by (rule whitespace_input [OF h])
qed

text \<open>
  The agent's \<open>format_guard\<close> has no fixed value for empty input: the empty text and a
  single space are both returned as they are, and neither result is the text
  \<open>"(No output)"\<close> of the launcher.
\<close>

theorem whitespace_input_counterexample:
  "format_guard [] 4 = [] \<and> format_guard [SPACE] 4 = [SPACE] \<and>
   format_guard [SPACE] 4 \<noteq> format_guard [] 4 \<and>
   format_guard [SPACE] 4 \<noteq> [LF, LF] @ ustr ''(No output)'' @ [LF]"
  by (simp add: eval_defs)

section \<open>Extracting and rewriting the bullets\<close>

lemma ustr_overlap: "ustr '' - - '' = [SPACE, HYPHEN, SPACE, HYPHEN, SPACE]"
  by (simp add: ustr_def)

lemma py_replace_first:
  assumes "split_once old s = Some (h, t)" and "old \<noteq> []"
  shows "py_replace old new s = h @ new @ py_replace old new t"
  using assms
proof (induction s arbitrary: h)
  case Nil
  then show ?case by simp
next
  case (Cons c cs)
  show ?case
  proof (cases "prefix old (c # cs)")
    case True
    with Cons.prems show ?thesis by simp
  next
    case False
    with Cons.prems obtain h0 where h0: "split_once old cs = Some (h0, t)" "h = c # h0"
      by (auto split: prod.splits)
    with Cons.IH [OF h0(1) Cons.prems(2)] False show ?thesis by simp
  qed
qed

lemma replace_dash_head:
  "prefix [HYPHEN, SPACE] (py_replace [SPACE, HYPHEN, SPACE] [SPACE, EN_DASH, SPACE] t) \<longleftrightarrow>
   prefix [HYPHEN, SPACE] t"
proof (cases t)
  case Nil
  then show ?thesis by simp
next
  case (Cons c cs)
  show ?thesis
  proof (cases cs)
    case Nil
    with Cons show ?thesis by simp
  next
    case (Cons d ds)
    with \<open>t = c # cs\<close> show ?thesis by auto
  qed
qed

lemma replace_dash_complete:
  "\<not> sublist [SPACE, HYPHEN, SPACE, HYPHEN, SPACE] b \<Longrightarrow>
   \<not> sublist [SPACE, HYPHEN, SPACE] (py_replace [SPACE, HYPHEN, SPACE] [SPACE, EN_DASH, SPACE] b)"
proof (induction "length b" arbitrary: b rule: less_induct)
  case less
  let ?R = "py_replace [SPACE, HYPHEN, SPACE] [SPACE, EN_DASH, SPACE]"
  show ?case
  proof (cases b)
    case Nil
    then show ?thesis by simp
  next
    case (Cons c cs)
    show ?thesis
    proof (cases "prefix [SPACE, HYPHEN, SPACE] b")
      case True
      then obtain t where t: "b = SPACE # HYPHEN # SPACE # t" by (auto simp: prefix_def)
      from less.prems t have nt: "\<not> sublist [SPACE, HYPHEN, SPACE, HYPHEN, SPACE] t"
        and np: "\<not> prefix [HYPHEN, SPACE] t"
        by (auto simp: sublist_Cons_right)
      have "\<not> sublist [SPACE, HYPHEN, SPACE] (?R t)"
        using less.hyps [of t] nt t by simp
      moreover have "\<not> prefix [HYPHEN, SPACE] (?R t)" unfolding replace_dash_head by (rule np)
      moreover have "?R b = SPACE # EN_DASH # SPACE # ?R t" using t by simp
      ultimately show ?thesis by (simp add: sublist_Cons_right)
    next
      case False
      from less.prems Cons have "\<not> sublist [SPACE, HYPHEN, SPACE, HYPHEN, SPACE] cs"
        by (simp add: sublist_Cons_right)
      then have ih: "\<not> sublist [SPACE, HYPHEN, SPACE] (?R cs)"
        using less.hyps [of cs] Cons by simp
      have r: "?R b = c # ?R cs" using False unfolding Cons by (simp del: Cons_prefix_Cons)
      have "\<not> prefix [SPACE, HYPHEN, SPACE] (c # ?R cs)"
      proof
        assume "prefix [SPACE, HYPHEN, SPACE] (c # ?R cs)"
        then have c: "c = SPACE" and "prefix [HYPHEN, SPACE] (?R cs)" by simp_all
        then have "prefix [HYPHEN, SPACE] cs" unfolding replace_dash_head by simp
        with c False Cons show False by simp
      qed
      with ih r show ?thesis by (simp add: sublist_Cons_right)
    qed
  qed
qed

lemma sublist_strip: "sublist (strip s) s"
proof -
  let ?d = "dropWhile py_isspace s"
  have "sublist (dropWhile py_isspace (rev ?d)) (rev ?d)" by (rule sublist_dropWhile)
  then have "sublist (strip s) ?d" by (simp add: strip_def sublist_rev_left)
  moreover have "sublist ?d s" by (rule sublist_dropWhile)
  ultimately show ?thesis by (rule sublist_order.order.trans)
qed

text \<open>
  Claim C6, with the replacement as \<open>str.replace\<close> performs it. The bullet lines of the
  output are the collected bullets (after the sentinel and the clamp); the collected
  bullets are the rewritten forms of exactly the trimmed lines that start with \<open>"- "\<close>,
  in their order; rewriting removes the prefix, strips the rest, replaces \<open>" - "\<close> by
  space, en dash, space and then every curly apostrophe by a straight one. The replacement of
  \<open>" - "\<close> leaves a text without it unchanged, replaces the first occurrence and goes on
  behind it, and leaves no \<open>" - "\<close> when no two occurrences share a space (the text has
  no \<open>" - - "\<close>). No curly apostrophe remains.
\<close>

theorem bullet_extraction:
  "(lines_of s \<noteq> [] \<longrightarrow>
      tl (splitlines (format_guard s n)) =
        map (\<lambda>b. ustr ''- '' @ b) (clamp_bullets n (collect_bullets [] (lines_of s)))) \<and>
   collect_bullets [] ls = map rewrite_bullet (filter (prefix (ustr ''- '')) ls) \<and>
   rewrite_bullet (ustr ''- '' @ r) =
     map (\<lambda>c. if c = CURLY_APOSTROPHE then APOSTROPHE else c)
       (py_replace (ustr '' - '') [SPACE, EN_DASH, SPACE] (strip r)) \<and>
   (\<not> sublist (ustr '' - '') b \<longrightarrow> py_replace (ustr '' - '') [SPACE, EN_DASH, SPACE] b = b) \<and>
   ((\<forall>h' t'. h @ ustr '' - '' @ t = h' @ ustr '' - '' @ t' \<longrightarrow> length h \<le> length h') \<longrightarrow>
      py_replace (ustr '' - '') [SPACE, EN_DASH, SPACE] (h @ ustr '' - '' @ t) =
        h @ [SPACE, EN_DASH, SPACE] @ py_replace (ustr '' - '') [SPACE, EN_DASH, SPACE] t) \<and>
   (\<not> sublist (ustr '' - - '') b \<longrightarrow>
      \<not> sublist (ustr '' - '') (py_replace (ustr '' - '') [SPACE, EN_DASH, SPACE] b)) \<and>
   CURLY_APOSTROPHE \<notin> set (rewrite_bullet l)"
proof (intro conjI impI)
  assume ne: "lines_of s \<noteq> []"
  then obtain l0 rest where ls: "lines_of s = l0 # rest" by (cases "lines_of s") auto
  show "tl (splitlines (format_guard s n)) =
        map (\<lambda>b. ustr ''- '' @ b) (clamp_bullets n (collect_bullets [] (lines_of s)))"
    unfolding format_guard_lines(2) [OF ne] by (simp add: final_lines_def ls)
next
  show "collect_bullets [] ls = map rewrite_bullet (filter (prefix (ustr ''- '')) ls)"
    by (simp add: collect_bullets_eq)
next
  show "rewrite_bullet (ustr ''- '' @ r) =
     map (\<lambda>c. if c = CURLY_APOSTROPHE then APOSTROPHE else c)
       (py_replace (ustr '' - '') [SPACE, EN_DASH, SPACE] (strip r))"
    by (simp add: rewrite_bullet_def ustr_dash_space py_replace_char)
next
  assume "\<not> sublist (ustr '' - '') b"
  then show "py_replace (ustr '' - '') [SPACE, EN_DASH, SPACE] b = b" by (rule py_replace_absent)
next
  assume m: "\<forall>h' t'. h @ ustr '' - '' @ t = h' @ ustr '' - '' @ t' \<longrightarrow> length h \<le> length h'"
  have "split_once (ustr '' - '') (h @ ustr '' - '' @ t) = Some (h, t)"
    by (rule split_once_first [OF refl m]) (simp add: ustr_def)
  then show "py_replace (ustr '' - '') [SPACE, EN_DASH, SPACE] (h @ ustr '' - '' @ t) =
        h @ [SPACE, EN_DASH, SPACE] @ py_replace (ustr '' - '') [SPACE, EN_DASH, SPACE] t"
    by (rule py_replace_first) (simp add: ustr_def)
next
  assume "\<not> sublist (ustr '' - - '') b"
  then show "\<not> sublist (ustr '' - '') (py_replace (ustr '' - '') [SPACE, EN_DASH, SPACE] b)"
    unfolding ustr_overlap ustr_space_dash_space by (rule replace_dash_complete)
next
  show "CURLY_APOSTROPHE \<notin> set (rewrite_bullet l)" by (rule rewrite_bullet_no_curly)
qed

theorem bullet_extraction_witness:
  "tl (splitlines (format_guard (ustr ''$1'' @ [LF] @ ustr ''- a'' @ [LF] @ ustr ''- b'') 4)) =
     [ustr ''- a'', ustr ''- b''] \<and>
   collect_bullets [] [ustr ''$1'', ustr ''- A - B'', ustr ''x'', ustr ''- C'' @ [CURLY_APOSTROPHE] @ ustr ''s''] =
     [ustr ''A '' @ [EN_DASH] @ ustr '' B'', ustr ''C'' @ [APOSTROPHE] @ ustr ''s''] \<and>
   py_replace (ustr '' - '') [SPACE, EN_DASH, SPACE] (ustr ''C-D'') = ustr ''C-D'' \<and>
   py_replace (ustr '' - '') [SPACE, EN_DASH, SPACE] (ustr ''A'' @ ustr '' - '' @ ustr ''B'') =
     ustr ''A'' @ [SPACE, EN_DASH, SPACE] @ ustr ''B'' \<and>
   \<not> sublist (ustr '' - '') (py_replace (ustr '' - '') [SPACE, EN_DASH, SPACE] (ustr ''A - B - C''))"
proof -
  let ?s = "ustr ''$1'' @ [LF] @ ustr ''- a'' @ [LF] @ ustr ''- b''"
  let ?ls = "[ustr ''$1'', ustr ''- A - B'', ustr ''x'', ustr ''- C'' @ [CURLY_APOSTROPHE] @ ustr ''s'']"
  have h1: "lines_of ?s \<noteq> []" unfolding lines_of_example by simp
  have h2: "\<not> sublist (ustr '' - '') (ustr ''C-D'')" by (simp add: ustr_def sublist_Cons_right)
  have sp: "split_once (ustr '' - '') (ustr ''A'' @ ustr '' - '' @ ustr ''B'') = Some (ustr ''A'', ustr ''B'')"
    by (simp add: ustr_def)
  have ne: "ustr '' - '' \<noteq> []" by (simp add: ustr_def)
  from split_once_Some [OF sp ne]
  have h3: "\<forall>h' t'. ustr ''A'' @ ustr '' - '' @ ustr ''B'' = h' @ ustr '' - '' @ t' \<longrightarrow> length (ustr ''A'') \<le> length h'"
    by blast
  have h4: "\<not> sublist (ustr '' - - '') (ustr ''A - B - C'')" by (simp add: ustr_def sublist_Cons_right)
  have a: "tl (splitlines (format_guard ?s 4)) =
        map (\<lambda>b. ustr ''- '' @ b) (clamp_bullets 4 (collect_bullets [] (lines_of ?s)))"
    using bullet_extraction [of ?s 4] h1 by blast
  have a': "map (\<lambda>b. ustr ''- '' @ b) (clamp_bullets 4 (collect_bullets [] (lines_of ?s))) = [ustr ''- a'', ustr ''- b'']"
    unfolding lines_of_example by (simp add: eval_defs)
  have b: "collect_bullets [] ?ls = map rewrite_bullet (filter (prefix (ustr ''- '')) ?ls)"
    using bullet_extraction [where ls = ?ls] by blast
  have b': "map rewrite_bullet (filter (prefix (ustr ''- '')) ?ls) =
              [ustr ''A '' @ [EN_DASH] @ ustr '' B'', ustr ''C'' @ [APOSTROPHE] @ ustr ''s'']"
    by (simp add: eval_defs)
  have c: "py_replace (ustr '' - '') [SPACE, EN_DASH, SPACE] (ustr ''C-D'') = ustr ''C-D''"
    using bullet_extraction [where b = "ustr ''C-D''"] h2 by blast
  have d: "py_replace (ustr '' - '') [SPACE, EN_DASH, SPACE] (ustr ''A'' @ ustr '' - '' @ ustr ''B'') =
        ustr ''A'' @ [SPACE, EN_DASH, SPACE] @ py_replace (ustr '' - '') [SPACE, EN_DASH, SPACE] (ustr ''B'')"
    using bullet_extraction [where h = "ustr ''A''" and t = "ustr ''B''"] h3 by blast
  have d': "py_replace (ustr '' - '') [SPACE, EN_DASH, SPACE] (ustr ''B'') = ustr ''B''"
    by (simp add: ustr_def)
  have e: "\<not> sublist (ustr '' - '') (py_replace (ustr '' - '') [SPACE, EN_DASH, SPACE] (ustr ''A - B - C''))"
    using bullet_extraction [where b = "ustr ''A - B - C''"] h4 by blast
  from a a' b b' c d d' e show ?thesis by simp
qed

text \<open>
  In \<open>"a - - b"\<close> two occurrences of \<open>" - "\<close> share a space: the first is replaced, the
  scan goes on behind it, and the collected bullet still contains \<open>" - "\<close>.
\<close>

theorem bullet_extraction_counterexample:
  "collect_bullets [] (lines_of (ustr ''- a - - b'')) = [ustr ''a '' @ [EN_DASH] @ ustr '' - b''] \<and>
   sublist (ustr '' - '') (ustr ''a '' @ [EN_DASH] @ ustr '' - b'')"
  by (simp add: eval_defs sublist_Cons_right)

section \<open>Projecting and re-flattening\<close>

lemma separator_nonempty: "separator \<noteq> []"
  by (simp add: separator_def)

lemma collect_headlines_eq:
  "collect_headlines hs ls = hs @ map split_headline (filter (prefix (ustr ''- '')) ls)"
  by (induction ls arbitrary: hs) simp_all

lemma reflatten_headline:
  assumes "clean b"
    and "\<forall>t h. b = t @ separator @ h \<and>
           (\<forall>t' h'. b = t' @ separator @ h' \<longrightarrow> length t \<le> length t') \<longrightarrow>
           strip t = t \<and> strip h = h"
  shows "title (split_headline (ustr ''- '' @ b)) @
           (if host (split_headline (ustr ''- '' @ b)) = [] then []
            else separator @ host (split_headline (ustr ''- '' @ b))) = b"
proof (cases "split_once separator b")
  case None
  then show ?thesis
    using assms(1) by (simp add: split_headline_def ustr_dash_space clean_strip)
next
  case (Some th)
  obtain t h where th: "th = (t, h)" by (cases th)
  from split_once_Some [OF Some [unfolded th] separator_nonempty]
  have b: "b = t @ separator @ h"
    and m: "\<forall>t' h'. b = t' @ separator @ h' \<longrightarrow> length t \<le> length t'" by simp_all
  with assms(2) have st: "strip t = t" "strip h = h" by blast+
  have "h \<noteq> []"
  proof
    assume "h = []"
    with b have "last b = SPACE" by (simp add: separator_def)
    moreover have "py_isspace SPACE" by (simp add: py_isspace_def)
    ultimately show False using assms(1) by (simp add: clean_def)
  qed
  with Some th st b assms(1) show ?thesis
    by (simp add: split_headline_def ustr_dash_space clean_strip)
qed

lemma blank_projection:
  assumes "lines_of s = []"
  shows "lines_of (join [LF] (spec_reflatten (to_json (format_guard s n)))) =
         lines_of (format_guard s n)"
proof -
  have o: "format_guard s n = s" using assms by (simp add: format_guard_def)
  have "spec_reflatten (to_json s) = [[]]"
    using assms by (simp add: to_json_def spec_reflatten_def)
  then have "join [LF] (spec_reflatten (to_json s)) = []" by simp
  moreover have "lines_of [] = []" by (simp add: lines_of_def splitlines_def)
  ultimately show ?thesis unfolding o using assms by simp
qed

lemma nonblank_projection:
  assumes "lines_of s \<noteq> []"
    and "\<forall>b\<in>set (clamp_bullets n (collect_bullets [] (lines_of s))).
           \<forall>t h. b = t @ separator @ h \<and>
                 (\<forall>t' h'. b = t' @ separator @ h' \<longrightarrow> length t \<le> length t') \<longrightarrow>
                 strip t = t \<and> strip h = h"
  shows "spec_reflatten (to_json (format_guard s n)) = splitlines (format_guard s n) \<and>
         join [LF] (spec_reflatten (to_json (format_guard s n))) = format_guard s n"
proof -
  from assms(1) obtain l0 rest where ls: "lines_of s = l0 # rest" by (cases "lines_of s") auto
  let ?p = "select_price l0 rest"
  let ?bs = "clamp_bullets n (collect_bullets [] (lines_of s))"
  let ?dash = "\<lambda>b. ustr ''- '' @ b"
  let ?line = "\<lambda>b. ustr ''- '' @ title (split_headline (?dash b)) @
                 (if host (split_headline (?dash b)) = [] then []
                  else separator @ host (split_headline (?dash b)))"
  have f: "final_lines (lines_of s) n = ?p # map ?dash ?bs" by (simp add: final_lines_def ls)
  have l2: "lines_of (format_guard s n) = ?p # map ?dash ?bs"
    using format_guard_lines(3) [OF assms(1), of n] f by simp
  have s2: "splitlines (format_guard s n) = ?p # map ?dash ?bs"
    using format_guard_lines(2) [OF assms(1), of n] f by simp
  have j2: "format_guard s n = join [LF] (?p # map ?dash ?bs)"
    using format_guard_lines(1) [OF assms(1), of n] f by simp
  have lc: "\<forall>l\<in>set (lines_of s). clean l" by (simp add: lines_of_clean)
  have line: "?line b = ?dash b" if b: "b \<in> set ?bs" for b
  proof -
    from b have cb: "clean b" using clamped_clean [OF lc, of n] by blast
    from b assms(2) have
      "\<forall>t h. b = t @ separator @ h \<and>
           (\<forall>t' h'. b = t' @ separator @ h' \<longrightarrow> length t \<le> length t') \<longrightarrow>
           strip t = t \<and> strip h = h" by blast
    from reflatten_headline [OF cb this] show ?thesis by simp
  qed
  have flt: "filter (prefix (ustr ''- '')) (map ?dash ?bs) = map ?dash ?bs"
    by (induction ?bs) simp_all
  have "to_json (format_guard s n) =
          \<lparr>price = ?p, headlines = map split_headline (map ?dash ?bs)\<rparr>"
    by (simp add: to_json_def l2 collect_headlines_eq flt)
  then have "spec_reflatten (to_json (format_guard s n)) = ?p # map ?line ?bs"
    by (simp add: spec_reflatten_def comp_def)
  also have "\<dots> = ?p # map ?dash ?bs" using line by simp
  finally have r: "spec_reflatten (to_json (format_guard s n)) = ?p # map ?dash ?bs" .
  show ?thesis unfolding r using s2 j2 by simp
qed

lemma first_split_cases:
  assumes "sep \<noteq> []"
  shows "(\<forall>t h. b = t @ sep @ h \<and> (\<forall>t' h'. b = t' @ sep @ h' \<longrightarrow> length t \<le> length t') \<longrightarrow> P t h) \<longleftrightarrow>
         (case split_once sep b of None \<Rightarrow> True | Some (t, h) \<Rightarrow> P t h)"
proof -
  define A where
    "A = (\<lambda>t h. b = t @ sep @ h \<and> (\<forall>t' h'. b = t' @ sep @ h' \<longrightarrow> length t \<le> length t'))"
  have f1: "split_once sep b = Some (t, h)" if "A t h" for t h
    using that assms unfolding A_def by (intro split_once_first) simp_all
  have f2: "A t h" if "split_once sep b = Some (t, h)" for t h
    using split_once_Some [OF that assms] unfolding A_def .
  have "(\<forall>t h. A t h \<longrightarrow> P t h) \<longleftrightarrow>
        (case split_once sep b of None \<Rightarrow> True | Some (t, h) \<Rightarrow> P t h)"
  proof (cases "split_once sep b")
    case None
    have "\<not> A t h" for t h using f1 [of t h] None by auto
    with None show ?thesis by simp
  next
    case (Some th)
    obtain t0 h0 where th: "th = (t0, h0)" by (cases th)
    have a0: "A t0 h0" using f2 Some th by simp
    have u: "t = t0 \<and> h = h0" if "A t h" for t h using f1 [OF that] Some th by simp
    have "(\<forall>t h. A t h \<longrightarrow> P t h) \<longleftrightarrow> P t0 h0"
    proof
      assume "\<forall>t h. A t h \<longrightarrow> P t h"
      with a0 show "P t0 h0" by simp
    next
      assume p: "P t0 h0"
      show "\<forall>t h. A t h \<longrightarrow> P t h"
      proof (intro allI impI)
        fix t h assume "A t h"
        from u [OF this] p show "P t h" by simp
      qed
    qed
    with Some th show ?thesis by simp
  qed
  then show ?thesis unfolding A_def .
qed

text \<open>
  Claim C2, for bullets without whitespace next to the separator. Suppose that in every
  bullet of the output of \<open>format_guard\<close> that contains the separator (space, en dash,
  space), the text before the first separator does not end and the text after it does
  not begin with whitespace. Then projecting the output with \<open>to_json\<close> and
  re-flattening gives back the trimmed non-empty lines of the output; and when the input
  has a non-empty trimmed line, the re-flattened lines are exactly the lines of the
  output and, joined by line feeds, the output itself. A bullet without separator, such
  as the sentinel, is covered: its host is empty and its title is the whole bullet.
\<close>

theorem projection_round_trip:
  assumes "\<forall>b\<in>set (clamp_bullets n (collect_bullets [] (lines_of s))).
           \<forall>t h. b = t @ separator @ h \<and>
                 (\<forall>t' h'. b = t' @ separator @ h' \<longrightarrow> length t \<le> length t') \<longrightarrow>
                 strip t = t \<and> strip h = h"
  shows "lines_of (join [LF] (spec_reflatten (to_json (format_guard s n)))) =
           lines_of (format_guard s n) \<and>
         (lines_of s \<noteq> [] \<longrightarrow>
            spec_reflatten (to_json (format_guard s n)) = splitlines (format_guard s n) \<and>
            join [LF] (spec_reflatten (to_json (format_guard s n))) = format_guard s n)"
proof (cases "lines_of s = []")
  case True
  with blank_projection [OF True, of n] show ?thesis by simp
next
  case False
  from nonblank_projection [OF False assms]
  have a: "spec_reflatten (to_json (format_guard s n)) = splitlines (format_guard s n)"
    and b: "join [LF] (spec_reflatten (to_json (format_guard s n))) = format_guard s n"
    by blast+
  have "lines_of (join [LF] (spec_reflatten (to_json (format_guard s n)))) =
          lines_of (format_guard s n)" unfolding b ..
  with a b show ?thesis by blast
qed

theorem projection_round_trip_witness:
  "spec_reflatten (to_json (format_guard (ustr ''$1'' @ [LF] @ ustr ''- A - B'' @ [LF] @ ustr ''- C'') 4)) =
     [ustr ''$1'', ustr ''- A '' @ [EN_DASH] @ ustr '' B'', ustr ''- C''] \<and>
   splitlines (format_guard (ustr ''$1'' @ [LF] @ ustr ''- A - B'' @ [LF] @ ustr ''- C'') 4) =
     [ustr ''$1'', ustr ''- A '' @ [EN_DASH] @ ustr '' B'', ustr ''- C''] \<and>
   spec_reflatten (to_json (format_guard (ustr ''$1'') 4)) =
     [ustr ''$1'', ustr ''- No recent headlines found.''] \<and>
   join [LF] (spec_reflatten (to_json (format_guard (ustr ''$1'') 4))) = format_guard (ustr ''$1'') 4"
proof -
  let ?s = "ustr ''$1'' @ [LF] @ ustr ''- A - B'' @ [LF] @ ustr ''- C''"
  have l: "lines_of ?s = [ustr ''$1'', ustr ''- A - B'', ustr ''- C'']" by (simp add: eval_defs)
  have h1: "lines_of ?s \<noteq> []" unfolding l by simp
  have bs: "clamp_bullets 4 (collect_bullets [] (lines_of ?s)) =
              [ustr ''A'' @ separator @ ustr ''B'', ustr ''C'']"
    unfolding l by (simp add: eval_defs separator_def)
  have h2: "\<forall>b\<in>set (clamp_bullets 4 (collect_bullets [] (lines_of ?s))).
           \<forall>t h. b = t @ separator @ h \<and>
                 (\<forall>t' h'. b = t' @ separator @ h' \<longrightarrow> length t \<le> length t') \<longrightarrow>
                 strip t = t \<and> strip h = h"
    unfolding bs first_split_cases [OF separator_nonempty]
    by (simp add: separator_def ustr_def strip_def py_isspace_def)
  have v: "splitlines (format_guard ?s 4) =
             [ustr ''$1'', ustr ''- A '' @ [EN_DASH] @ ustr '' B'', ustr ''- C'']"
    by (simp add: eval_defs)
  have l': "lines_of (ustr ''$1'') = [ustr ''$1'']" by (simp add: eval_defs)
  have k1: "lines_of (ustr ''$1'') \<noteq> []" unfolding l' by simp
  have bs': "clamp_bullets 4 (collect_bullets [] (lines_of (ustr ''$1''))) = [sentinel]"
    unfolding l' by (simp add: eval_defs)
  have k2: "\<forall>b\<in>set (clamp_bullets 4 (collect_bullets [] (lines_of (ustr ''$1'')))).
           \<forall>t h. b = t @ separator @ h \<and>
                 (\<forall>t' h'. b = t' @ separator @ h' \<longrightarrow> length t \<le> length t') \<longrightarrow>
                 strip t = t \<and> strip h = h"
    unfolding bs' first_split_cases [OF separator_nonempty]
    by (simp add: separator_def ustr_def sentinel_def)
  have v': "splitlines (format_guard (ustr ''$1'') 4) = [ustr ''$1'', ustr ''- No recent headlines found.'']"
    by (simp add: eval_defs)
  have a: "spec_reflatten (to_json (format_guard ?s 4)) = splitlines (format_guard ?s 4)"
    using projection_round_trip [OF h2] h1 by blast
  have b: "spec_reflatten (to_json (format_guard (ustr ''$1'') 4)) =
             splitlines (format_guard (ustr ''$1'') 4)"
    using projection_round_trip [OF k2] k1 by blast
  have c: "join [LF] (spec_reflatten (to_json (format_guard (ustr ''$1'') 4))) =
             format_guard (ustr ''$1'') 4"
    using projection_round_trip [OF k2] k1 by blast
  show ?thesis using a [unfolded v] v b [unfolded v'] c by (intro conjI)
qed

text \<open>
  \<open>to_json\<close> strips title and host. The bullet line \<open>"- A  -  B"\<close>, with two spaces on
  each side of the hyphen, is normalized to a bullet with two spaces on each side of the
  en dash, and is projected to the title \<open>A\<close> and the host \<open>B\<close>, as \<open>"- A - B"\<close> is:
  re-flattening gives one space on each side.
\<close>

theorem projection_round_trip_counterexample:
  "splitlines (format_guard (ustr ''$1'' @ [LF] @ ustr ''- A  -  B'') 4) =
     [ustr ''$1'', ustr ''- A  '' @ [EN_DASH] @ ustr ''  B''] \<and>
   spec_reflatten (to_json (format_guard (ustr ''$1'' @ [LF] @ ustr ''- A  -  B'') 4)) =
     [ustr ''$1'', ustr ''- A '' @ [EN_DASH] @ ustr '' B''] \<and>
   spec_reflatten (to_json (format_guard (ustr ''$1'' @ [LF] @ ustr ''- A  -  B'') 4)) \<noteq>
     splitlines (format_guard (ustr ''$1'' @ [LF] @ ustr ''- A  -  B'') 4)"
proof -
  have o: "format_guard (ustr ''$1'' @ [LF] @ ustr ''- A  -  B'') 4 =
             ustr ''$1'' @ [LF] @ ustr ''- A  '' @ [EN_DASH] @ ustr ''  B''"
    by (simp add: eval_defs)
  have l: "lines_of (ustr ''$1'' @ [LF] @ ustr ''- A  '' @ [EN_DASH] @ ustr ''  B'') =
             [ustr ''$1'', ustr ''- A  '' @ [EN_DASH] @ ustr ''  B'']"
    by (simp add: eval_defs)
  have s: "splitlines (ustr ''$1'' @ [LF] @ ustr ''- A  '' @ [EN_DASH] @ ustr ''  B'') =
             [ustr ''$1'', ustr ''- A  '' @ [EN_DASH] @ ustr ''  B'']"
    by (simp add: eval_defs)
  have r: "spec_reflatten (to_json (ustr ''$1'' @ [LF] @ ustr ''- A  '' @ [EN_DASH] @ ustr ''  B'')) =
             [ustr ''$1'', ustr ''- A '' @ [EN_DASH] @ ustr '' B'']"
    unfolding to_json_def l
    by (simp add: spec_reflatten_def split_headline_def separator_def strip_def py_isspace_def
          ustr_def)
  show ?thesis unfolding o r s by (simp add: ustr_def)
qed

section \<open>Salvaging a final answer\<close>

lemma final_marker_nonempty: "final_marker \<noteq> []"
  by (simp add: final_marker_def ustr_def)

lemma ws_then_any_None: "ws_then_any r = None \<longleftrightarrow> r = []"
  by (induction r) (auto split: option.splits)

lemma ws_then_any_nonspace:
  "\<exists>c\<in>set r. \<not> py_isspace c \<Longrightarrow> ws_then_any r = Some (dropWhile py_isspace r)"
  by (induction r) auto

lemma ws_then_any_allspace:
  "r \<noteq> [] \<Longrightarrow> \<forall>c\<in>set r. py_isspace c \<Longrightarrow> ws_then_any r = Some [last r]"
  by (induction r) (auto simp: ws_then_any_None split: option.splits)

lemma FINAL_RE_search_short: "length s < length final_marker \<Longrightarrow> FINAL_RE_search s = None"
proof (induction s)
  case Nil
  then show ?case by (simp add: FINAL_RE_at_def final_marker_nonempty)
next
  case (Cons c cs)
  then have "\<not> prefix final_marker (c # cs)" by (auto dest: prefix_length_le)
  with Cons show ?case by (simp add: FINAL_RE_at_def)
qed

lemma FINAL_RE_search_split:
  "FINAL_RE_search s =
     (case split_once final_marker s of None \<Rightarrow> None | Some (h, r) \<Rightarrow> ws_then_any r)"
proof (induction s)
  case Nil
  show ?case by (simp add: FINAL_RE_at_def final_marker_nonempty)
next
  case (Cons c cs)
  show ?case
  proof (cases "prefix final_marker (c # cs)")
    case True
    let ?r = "drop (length final_marker) (c # cs)"
    show ?thesis
    proof (cases "ws_then_any ?r")
      case None
      then have "?r = []" by (simp add: ws_then_any_None)
      moreover from True have "length final_marker \<le> length (c # cs)" by (rule prefix_length_le)
      ultimately have "length (c # cs) = length final_marker" by simp
      then have "FINAL_RE_search cs = None" by (intro FINAL_RE_search_short) simp
      with True None show ?thesis by (simp add: FINAL_RE_at_def)
    next
      case (Some g)
      with True show ?thesis by (simp add: FINAL_RE_at_def)
    qed
  next
    case False
    with Cons show ?thesis
      by (cases "split_once final_marker cs") (auto simp: FINAL_RE_at_def)
  qed
qed

lemma split_once_None: "sep \<noteq> [] \<Longrightarrow> split_once sep s = None \<longleftrightarrow> \<not> sublist sep s"
  by (induction s) (auto simp: sublist_Cons_right)

lemma splitlines_from_hd:
  "s \<noteq> [] \<or> cur \<noteq> [] \<Longrightarrow>
   \<exists>rest. splitlines_from cur s = (rev cur @ takeWhile (\<lambda>c. \<not> py_islinebreak c) s) # rest"
proof (induction s arbitrary: cur)
  case Nil
  then show ?case by simp
next
  case (Cons c cs)
  show ?case
  proof (cases "py_islinebreak c")
    case True
    then show ?thesis by (cases cs) auto
  next
    case False
    then have "c \<noteq> CR" using CR_linebreak by auto
    with False Cons.IH [of "c # cur"] show ?thesis by simp
  qed
qed

lemma splitlines_first:
  "s \<noteq> [] \<Longrightarrow> \<exists>rest. splitlines s = takeWhile (\<lambda>c. \<not> py_islinebreak c) s # rest"
  using splitlines_from_hd [of s "[]"] by (simp add: splitlines_def)

lemma strip_dropWhile: "strip (dropWhile py_isspace r) = strip r"
  by (simp add: strip_def)

text \<open>
  Claim C7, as the code has it. When \<open>"Final Answer:"\<close> does not occur in the text,
  \<open>try_extract_final\<close> returns \<open>None\<close>. When \<open>r\<close> is the text after its first occurrence
  and \<open>r\<close> has a character that is not whitespace, the result is the first line of the
  stripped \<open>r\<close>, stripped again: whitespace after the marker, line breaks included, is
  skipped before the line is taken.
\<close>

theorem salvage_extraction:
  "(\<not> sublist final_marker t \<longrightarrow> try_extract_final t = Inr None) \<and>
   (\<forall>h r. t = h @ final_marker @ r \<and>
          (\<forall>h' r'. t = h' @ final_marker @ r' \<longrightarrow> length h \<le> length h') \<and>
          (\<exists>c\<in>set r. \<not> py_isspace c) \<longrightarrow>
      try_extract_final t =
        Inr (Some (strip (takeWhile (\<lambda>c. \<not> py_islinebreak c) (strip r)))))"
proof (intro conjI impI allI)
  assume "\<not> sublist final_marker t"
  then have "split_once final_marker t = None"
    by (simp add: split_once_None final_marker_nonempty)
  then show "try_extract_final t = Inr None"
    by (simp add: try_extract_final_def FINAL_RE_search_split)
next
  fix h r
  assume a: "t = h @ final_marker @ r \<and>
          (\<forall>h' r'. t = h' @ final_marker @ r' \<longrightarrow> length h \<le> length h') \<and>
          (\<exists>c\<in>set r. \<not> py_isspace c)"
  then have sp: "split_once final_marker t = Some (h, r)"
    by (intro split_once_first) (simp_all add: final_marker_nonempty)
  from a have ns: "\<exists>c\<in>set r. \<not> py_isspace c" by simp
  have g: "FINAL_RE_search t = Some (dropWhile py_isspace r)"
    by (simp add: FINAL_RE_search_split sp ws_then_any_nonspace [OF ns])
  have ne: "strip r \<noteq> []" using ns by (simp add: strip_eq_Nil_iff)
  from splitlines_first [OF ne] obtain rest where
    "splitlines (strip r) = takeWhile (\<lambda>c. \<not> py_islinebreak c) (strip r) # rest" by blast
  then show "try_extract_final t =
        Inr (Some (strip (takeWhile (\<lambda>c. \<not> py_islinebreak c) (strip r))))"
    by (simp add: try_extract_final_def g strip_dropWhile)
qed

theorem salvage_extraction_witness:
  "try_extract_final (ustr ''Error: Final Answer: 42'' @ [LF] @ ustr ''more'') = Inr (Some (ustr ''42''))"
proof -
  let ?t = "ustr ''Error: Final Answer: 42'' @ [LF] @ ustr ''more''"
  let ?h = "ustr ''Error: ''" and ?r = "ustr '' 42'' @ [LF] @ ustr ''more''"
  have sp: "split_once final_marker ?t = Some (?h, ?r)"
    by (simp add: final_marker_def ustr_def)
  from split_once_Some [OF sp final_marker_nonempty]
  have h: "?t = ?h @ final_marker @ ?r \<and>
           (\<forall>h' r'. ?t = h' @ final_marker @ r' \<longrightarrow> length ?h \<le> length h') \<and>
           (\<exists>c\<in>set ?r. \<not> py_isspace c)"
    by (simp add: ustr_def py_isspace_def)
  have v: "strip (takeWhile (\<lambda>c. \<not> py_islinebreak c) (strip ?r)) = ustr ''42''"
    by (simp add: strip_def ustr_def py_isspace_def py_islinebreak_def)
  from salvage_extraction [of ?t] h have
    "try_extract_final ?t = Inr (Some (strip (takeWhile (\<lambda>c. \<not> py_islinebreak c) (strip ?r))))"
    by blast
  then show ?thesis unfolding v .
qed

text \<open>
  A marker with nothing after it gives \<open>None\<close> although the marker occurs; a line break
  directly after the marker is skipped, so that the answer is taken from the next line;
  and an answer \<open>42\<close> behind a second marker is not returned, the first marker decides.
\<close>

theorem salvage_extraction_counterexample:
  "sublist final_marker (ustr ''Final Answer:'') \<and>
   try_extract_final (ustr ''Final Answer:'') = Inr None \<and>
   try_extract_final (ustr ''Final Answer:'' @ [LF] @ ustr ''42'') = Inr (Some (ustr ''42'')) \<and>
   try_extract_final (ustr ''Final Answer: x'' @ [LF] @ ustr ''Final Answer: 42'') = Inr (Some (ustr ''x''))"
  by (simp add: final_marker_def try_extract_final_def FINAL_RE_at_def strip_def splitlines_def
        ustr_def py_isspace_def py_islinebreak_def)

section \<open>The retry bound\<close>

text \<open>
  Claim C8. Within one run of the main block the agent is invoked once or twice, never
  more; it is invoked a second time exactly when the first call raised
  \<open>ResourceExhausted\<close>; and when the second call raises \<open>ResourceExhausted\<close> too, the
  exception leaves the block uncaught, after the notice and the wait of 35 seconds, with
  nothing printed on the standard output.
\<close>

theorem retry_bound:
  "1 \<le> calls (snd (main_block env)) \<and> calls (snd (main_block env)) \<le> 2 \<and>
   (calls (snd (main_block env)) = 2 \<longleftrightarrow> env 0 = ResourceExhausted) \<and>
   (env 0 = ResourceExhausted \<and> env 1 = ResourceExhausted \<longrightarrow>
      main_block env = (Uncaught_ResourceExhausted,
        \<lparr>calls = 2, stdout = [], stderr = [rate_limit_notice], slept = 35\<rparr>))"
  by (cases "env 0"; cases "env (Suc 0)")
     (auto simp: main_block_def invoke_def initial_def print_output_def
           split: sum.splits option.splits py_error.splits)

theorem retry_bound_witness:
  "(\<lambda>k. ResourceExhausted) (0::nat) = ResourceExhausted \<and>
   (\<lambda>k. ResourceExhausted) (1::nat) = ResourceExhausted \<and>
   calls (snd (main_block (\<lambda>k. ResourceExhausted))) = 2 \<and>
   fst (main_block (\<lambda>k. ResourceExhausted)) = Uncaught_ResourceExhausted"
  using retry_bound [of "\<lambda>k. ResourceExhausted"] by simp

end
